theory Spec2Isabelle
  imports Main "HOL-Library.Char_ord" "HOL-Library.List_Lexorder"
begin

section \<open>Library convert: a model of libraryconvert.py\<close>

text \<open>
  The program mirrors a source directory tree into a destination tree: files with one of
  the source extensions are handed to an external converter, files with a copy-through
  extension are copied, and destination files without a source counterpart are deleted.

  Python strings are modelled as \<^typ>\<open>string\<close> and compared as Python compares them:
  character by character, a proper prefix being smaller (the order of
  \<^theory_text>\<open>List_Lexorder\<close> over the character order of \<^theory_text>\<open>Char_ord\<close>; on UTF-8 bytes
  this is the order of the code points).
  Exceptions are values of \<open>py_error\<close>; a function that can raise returns
  \<open>py_error + 'a\<close>. The functions of \<^verbatim>\<open>os\<close> and \<^verbatim>\<open>os.path\<close> that the program calls are
  modelled after their POSIX behaviour.
\<close>

datatype py_error = IndexError | TypeError | EOFError
  | PermissionError | NotADirectoryError | FileNotFoundError

subsection \<open>Extensions and path strings\<close>

text \<open>
  \<^verbatim>\<open>ensure_dot_prefix\<close> reads \<^verbatim>\<open>s[0]\<close>, which raises IndexError on the empty string.
\<close>

fun ensure_dot_prefix :: "string \<Rightarrow> py_error + string" where
  "ensure_dot_prefix [] = Inl IndexError"
| "ensure_dot_prefix (c # cs) =
     (if c = CHR ''.'' then Inr (c # cs) else Inr (''.'' @ (c # cs)))"

text \<open>
  \<^verbatim>\<open>str.rfind\<close> for a single character: the index of its last occurrence, or -1.
\<close>

definition rfind :: "char \<Rightarrow> string \<Rightarrow> int" where
  "rfind c p =
     (if c \<in> set p
      then int (length p) - 1 - int (length (takeWhile (\<lambda>x. x \<noteq> c) (rev p)))
      else - 1)"

text \<open>
  \<^verbatim>\<open>os.path.splitext\<close> (POSIX): the extension starts at the last dot of the last path
  component, unless only dots stand between the start of that component and this dot
  (leading dots do not start an extension).
\<close>

definition splitext :: "string \<Rightarrow> string \<times> string" where
  "splitext p =
     (let sepIndex = rfind CHR ''/'' p;
          dotIndex = rfind CHR ''.'' p
      in if dotIndex > sepIndex \<and>
            list_ex (\<lambda>ch. ch \<noteq> CHR ''.'')
              (take (nat (dotIndex - (sepIndex + 1))) (drop (nat (sepIndex + 1)) p))
         then (take (nat dotIndex) p, drop (nat dotIndex) p)
         else (p, []))"

definition replace_ext :: "string \<Rightarrow> string \<Rightarrow> string" where
  "replace_ext fp e = fst (splitext fp) @ e"

definition ext :: "string \<Rightarrow> string" where
  "ext fp = snd (splitext fp)"

text \<open>\<^verbatim>\<open>os.path.join\<close> of two POSIX paths.\<close>

definition join :: "string \<Rightarrow> string \<Rightarrow> string" where
  "join a b =
     (if b \<noteq> [] \<and> hd b = CHR ''/'' then b
      else if a = [] \<or> last a = CHR ''/'' then a @ b
      else a @ ''/'' @ b)"

text \<open>
  \<^verbatim>\<open>os.path.split\<close> (POSIX): head and tail around the last slash; trailing slashes are
  stripped from the head unless it consists of slashes only.
\<close>

definition path_split :: "string \<Rightarrow> string \<times> string" where
  "path_split p =
     (let i = nat (rfind CHR ''/'' p + 1);
          head = take i p;
          tail = drop i p
      in if head \<noteq> [] \<and> list_ex (\<lambda>ch. ch \<noteq> CHR ''/'') head
         then (rev (dropWhile (\<lambda>ch. ch = CHR ''/'') (rev head)), tail)
         else (head, tail))"

subsection \<open>The file system as the listing sees it\<close>

text \<open>
  A directory tree: a file, or a directory with a flag saying whether it can be read and
  its entries in the order \<^verbatim>\<open>os.scandir\<close> reports them. \<open>scandir\<close> raises on a file
  and on a directory that cannot be read.
\<close>

datatype node = File | Dir bool "(string \<times> node) list"

fun is_dir :: "node \<Rightarrow> bool" where
  "is_dir File = False"
| "is_dir (Dir readable entries) = True"

fun scandir :: "node \<Rightarrow> py_error + (string \<times> node) list" where
  "scandir File = Inl NotADirectoryError"
| "scandir (Dir readable entries) =
     (if readable then Inr entries else Inl PermissionError)"

lemma entry_size:
  "(n, c) \<in> set es \<Longrightarrow> size c < Suc (size_list (size_prod (\<lambda>_. 0) size) es)"
  by (induction es) auto

lemma scandir_size: "scandir t = Inr es \<Longrightarrow> (n, c) \<in> set es \<Longrightarrow> size c < size t"
  by (cases t) (auto split: if_splits dest: entry_size)

text \<open>
  \<^verbatim>\<open>os.walk(top)\<close> with its defaults (top-down, \<^verbatim>\<open>onerror=None\<close>): each directory that
  can be scanned yields its path, its sub-directory names and its other names, then its
  sub-directories are walked. An error of \<^verbatim>\<open>scandir\<close> is passed to \<^verbatim>\<open>onerror\<close>,
  which is \<^verbatim>\<open>None\<close> here, so the directory yields nothing and the walk goes on.
  The path of a directory is kept as its components below the top.
\<close>

function walk :: "string list \<Rightarrow> node \<Rightarrow> (string list \<times> string list \<times> string list) list"
where
  "walk dirpath t =
     (case scandir t of
        Inl e \<Rightarrow> []
      | Inr entries \<Rightarrow>
          (dirpath, map fst (filter (\<lambda>e. is_dir (snd e)) entries),
                    map fst (filter (\<lambda>e. \<not> is_dir (snd e)) entries))
          # concat (map (\<lambda>e. if is_dir (snd e) then walk (dirpath @ [fst e]) (snd e) else [])
                        entries))"
  by pat_completeness auto
termination
  apply (relation "measure (\<lambda>(dirpath, t). size t)")
   apply simp
  subgoal for dirpath t entries e
    using scandir_size[of t entries "fst e" "snd e"] by simp
  done

declare walk.simps [simp del]

text \<open>
  The file system maps the path of a root to the tree found there, \<open>None\<close> when there is
  no such path (\<^verbatim>\<open>scandir\<close> raises FileNotFoundError, which the walk ignores as well).
\<close>

type_synonym filesystem = "string \<Rightarrow> node option"

definition os_walk :: "filesystem \<Rightarrow> string \<Rightarrow> (string list \<times> string list \<times> string list) list"
where
  "os_walk fs dir = (case fs dir of None \<Rightarrow> [] | Some t \<Rightarrow> walk [] t)"

text \<open>
  \<^verbatim>\<open>os.path.relpath(join(dirpath, f), dir)\<close> for a directory \<open>dirpath\<close> below \<open>dir\<close>:
  the components from \<open>dir\<close> down to the file, joined by slashes.
\<close>

fun join_components :: "string list \<Rightarrow> string" where
  "join_components [] = []"
| "join_components [c] = c"
| "join_components (c # d # cs) = c @ ''/'' @ join_components (d # cs)"

definition relpath :: "string list \<Rightarrow> string \<Rightarrow> string" where
  "relpath dirpath f = join_components (dirpath @ [f])"

definition sorted_filtered_paths :: "filesystem \<Rightarrow> string \<Rightarrow> string list \<Rightarrow> string list" where
  "sorted_filtered_paths fs dir filter_exts =
     sort (concat (map (\<lambda>(dirpath, dirnames, filenames).
                          map (relpath dirpath)
                            (filter (\<lambda>f. ext f \<in> set filter_exts) filenames))
                       (os_walk fs dir)))"

text \<open>
  What the listing is measured against. \<open>file_at t p\<close>: following the names \<open>p\<close> from
  the directory \<open>t\<close> leads through directories that can be read to a file.
  \<open>path_components\<close> cuts a path at its slashes. \<open>has_unreadable\<close> says that some
  directory of the tree cannot be read, and \<open>readable_part\<close> empties each of them.
\<close>

inductive file_at :: "node \<Rightarrow> string list \<Rightarrow> bool" where
  here: "(n, File) \<in> set es \<Longrightarrow> file_at (Dir True es) [n]"
| below: "(n, c) \<in> set es \<Longrightarrow> file_at c p \<Longrightarrow> file_at (Dir True es) (n # p)"

fun path_components :: "string \<Rightarrow> string list" where
  "path_components [] = [[]]"
| "path_components (c # cs) =
     (if c = CHR ''/'' then [] # path_components cs
      else (c # hd (path_components cs)) # tl (path_components cs))"

fun has_unreadable :: "node \<Rightarrow> bool" where
  "has_unreadable File = False"
| "has_unreadable (Dir readable entries) =
     (\<not> readable \<or> list_ex (\<lambda>e. has_unreadable (snd e)) entries)"

fun readable_part :: "node \<Rightarrow> node" where
  "readable_part File = File"
| "readable_part (Dir readable entries) =
     (if readable then Dir True (map (\<lambda>e. (fst e, readable_part (snd e))) entries)
      else Dir True [])"

text \<open>The paths picked from the triples of a walk, before sorting.\<close>

definition collect :: "(string \<Rightarrow> bool) \<Rightarrow> (string list \<times> string list \<times> string list) list \<Rightarrow> string list"
where
  "collect P ws =
     concat (map (\<lambda>(dirpath, dirnames, filenames). map (relpath dirpath) (filter P filenames)) ws)"

subsection \<open>The differ\<close>

text \<open>
  The state of the merge loop of \<^verbatim>\<open>operations_to_sync\<close>: the two indices and the two
  lists built so far. The context holds what the loop reads: \<open>getmtime\<close> gives the
  modification time of a path (times are only compared), \<open>args_ignore_mtime\<close> is the
  global \<^verbatim>\<open>args.ignore_mtime\<close>, the rest are the function's parameters and listings.
\<close>

record merge_state =
  src_i :: nat
  dest_i :: nat
  create :: "string list"
  delete :: "string list"

text \<open>
  The name the source path is compared under: its extension replaced when one is given
  (\<^verbatim>\<open>if dest_ext:\<close> holds for an extension that is neither \<^verbatim>\<open>None\<close> nor empty).
\<close>

definition src_fp_srt :: "string option \<Rightarrow> string \<Rightarrow> string" where
  "src_fp_srt dest_ext src_fp =
     (case dest_ext of
        None \<Rightarrow> src_fp
      | Some e \<Rightarrow> if e \<noteq> [] then replace_ext src_fp e else src_fp)"

record sync_ctx =
  getmtime :: "string \<Rightarrow> int"
  args_ignore_mtime :: bool
  src :: string
  dest :: string
  dest_ext :: "string option"
  src_fps :: "string list"
  dest_fps :: "string list"

text \<open>One pass through the body of the while loop.\<close>

definition loop_body :: "sync_ctx \<Rightarrow> merge_state \<Rightarrow> merge_state" where
  "loop_body c st =
     (let src_fp = src_fps c ! src_i st;
          srt = src_fp_srt (dest_ext c) src_fp;
          dest_fp = dest_fps c ! dest_i st
      in if srt = dest_fp then
           st\<lparr>src_i := src_i st + 1, dest_i := dest_i st + 1,
              create := (if \<not> args_ignore_mtime c \<and>
                            getmtime c (join (src c) src_fp) > getmtime c (join (dest c) dest_fp)
                         then create st @ [src_fp] else create st)\<rparr>
         else if srt > dest_fp then
           st\<lparr>dest_i := dest_i st + 1, delete := delete st @ [dest_fp]\<rparr>
         else
           st\<lparr>src_i := src_i st + 1, create := create st @ [src_fp]\<rparr>)"

function merge_loop :: "sync_ctx \<Rightarrow> merge_state \<Rightarrow> merge_state" where
  "merge_loop c st =
     (if src_i st < length (src_fps c) \<and> dest_i st < length (dest_fps c)
      then merge_loop c (loop_body c st)
      else st)"
  by pat_completeness auto
termination
  apply (relation "measure (\<lambda>(c, st). (length (src_fps c) - src_i st)
                                      + (length (dest_fps c) - dest_i st))")
   apply simp
  apply (auto simp: loop_body_def Let_def)
  done

declare merge_loop.simps [simp del]

text \<open>The two loops over the leftovers, and the returned pair.\<close>

definition leftovers :: "sync_ctx \<Rightarrow> merge_state \<Rightarrow> string list \<times> string list" where
  "leftovers c st =
     (create st @ drop (src_i st) (src_fps c), delete st @ drop (dest_i st) (dest_fps c))"

definition operations_to_sync ::
  "filesystem \<Rightarrow> (string \<Rightarrow> int) \<Rightarrow> bool \<Rightarrow> string \<Rightarrow> string \<Rightarrow> string list \<Rightarrow> string option
     \<Rightarrow> string list \<times> string list" where
  "operations_to_sync fs mtime ignore s d exts de =
     (if exts = [] then ([], [])
      else
        let c = \<lparr>getmtime = mtime, args_ignore_mtime = ignore, src = s, dest = d, dest_ext = de,
                 src_fps = sorted_filtered_paths fs s exts,
                 dest_fps = sorted_filtered_paths fs d
                              (case de of
                                 None \<Rightarrow> exts
                               | Some e \<Rightarrow> if e \<noteq> [] then [e] else exts)\<rparr>
        in leftovers c (merge_loop c \<lparr>src_i = 0, dest_i = 0, create = [], delete = []\<rparr>))"

subsection \<open>The run\<close>

text \<open>
  The parsed command line. \<open>copy_exts\<close> is \<open>None\<close> when the option is not given.
\<close>

record args =
  jobs :: int
  dry_run :: bool
  noconfirm :: bool
  verbose :: bool
  from_exts :: string
  to_ext :: string
  copy_exts :: "string option"
  ignore_mtime :: bool
  SOURCE :: string
  DEST :: string
  CONVERT_CMD :: "string list"

text \<open>
  What the run does to the outside world, in order: lines printed, the prompt, the calls
  that change the file system (taken to succeed), the worker threads started and the
  converter commands run. \<open>PrintCmd\<close> is the line \<^verbatim>\<open>print(shlex.join(convert_cmd))\<close>;
  the shell quoting itself is not modelled.
\<close>

datatype effect =
    Print string
  | PrintCmd "string list"
  | Input string
  | Remove string
  | Removedirs string
  | Makedirs string
  | Copy string string
  | StartThreads int
  | Run "string list"

datatype outcome = Returned | Exited int | Raised py_error

text \<open>
  What the run reads from the outside world: the processor count (\<^verbatim>\<open>os.cpu_count()\<close>
  may be \<^verbatim>\<open>None\<close>), the directory trees and modification times as they are when the
  run starts, the lines typed at the prompt, whether a directory is empty after the
  effects so far, and the exit status and output of a converter command.
\<close>

record os_env =
  cpu_count :: "int option"
  tree_at :: filesystem
  mtime_of :: "string \<Rightarrow> int"
  stdin_lines :: "string list"
  dir_empty :: "effect list \<Rightarrow> string \<Rightarrow> bool"
  run_result :: "string list \<Rightarrow> int \<times> string"

text \<open>Lines 135 to 138: the number of worker threads.\<close>

definition effective_jobs :: "int \<Rightarrow> int option \<Rightarrow> py_error + int" where
  "effective_jobs j cpus =
     (if j \<le> 0 then
        (case cpus of
           None \<Rightarrow> Inl TypeError
         | Some c \<Rightarrow> (let j' = j + c in if j' \<le> 0 then Inr 1 else Inr j'))
      else Inr j)"

text \<open>\<^verbatim>\<open>str.split(",")\<close>: the pieces between the commas, empty pieces included.\<close>

fun split_comma :: "string \<Rightarrow> string list" where
  "split_comma [] = [[]]"
| "split_comma (c # cs) =
     (if c = CHR '','' then [] # split_comma cs
      else (c # hd (split_comma cs)) # tl (split_comma cs))"

text \<open>The list comprehension over \<^verbatim>\<open>ensure_dot_prefix\<close>: the first failure ends it.\<close>

fun ensure_dot_prefix_all :: "string list \<Rightarrow> py_error + string list" where
  "ensure_dot_prefix_all [] = Inr []"
| "ensure_dot_prefix_all (x # xs) =
     (case ensure_dot_prefix x of
        Inl e \<Rightarrow> Inl e
      | Inr y \<Rightarrow> (case ensure_dot_prefix_all xs of Inl e \<Rightarrow> Inl e | Inr ys \<Rightarrow> Inr (y # ys)))"

text \<open>
  \<^verbatim>\<open>user_confirm\<close>: asks until the answer, in lower case and with the empty answer read
  as \<^verbatim>\<open>n\<close>, is \<^verbatim>\<open>y\<close> or \<^verbatim>\<open>n\<close>. \<^verbatim>\<open>input\<close> raises EOFError when no line is left.
  Only the letters A to Z are lowered, which decides the two comparisons as Python does.
\<close>

definition lower_char :: "char \<Rightarrow> char" where
  "lower_char ch =
     (if CHR ''A'' \<le> ch \<and> ch \<le> CHR ''Z'' then char_of (of_char ch + (32::nat)) else ch)"

fun user_confirm :: "string list \<Rightarrow> (py_error + bool) \<times> effect list" where
  "user_confirm [] = (Inl EOFError, [Input ''Begin? (y/N):''])"
| "user_confirm (l # ls) =
     (let inp = map lower_char l;
          inp = (if inp = [] then ''n'' else inp)
      in if inp = ''y'' \<or> inp = ''n'' then (Inr (inp = ''y''), [Input ''Begin? (y/N):''])
         else (fst (user_confirm ls), Input ''Begin? (y/N):'' # snd (user_confirm ls)))"

text \<open>
  Lines 164 to 171: the deletions. \<open>tr\<close> holds the effects so far; it decides what
  \<^verbatim>\<open>dir_empty\<close> answers.
\<close>

fun delete_stage :: "args \<Rightarrow> os_env \<Rightarrow> string list \<Rightarrow> effect list \<Rightarrow> effect list" where
  "delete_stage a env [] tr = tr"
| "delete_stage a env (rel_fp # rest) tr =
     (let fp = join (DEST a) rel_fp;
          tr1 = tr @ [Print (''Removing:'' @ fp)]
      in if dry_run a then delete_stage a env rest tr1
         else
           let tr2 = tr1 @ [Remove fp];
               dir = fst (path_split fp);
               tr3 = (if dir_empty env tr2 dir then tr2 @ [Removedirs dir] else tr2)
           in delete_stage a env rest tr3)"

text \<open>Lines 173 to 179: the copies.\<close>

fun copy_stage :: "args \<Rightarrow> string list \<Rightarrow> effect list" where
  "copy_stage a [] = []"
| "copy_stage a (rel_fp # rest) =
     (let src_fp = join (SOURCE a) rel_fp;
          dest_fp = join (DEST a) rel_fp;
          tr1 = [Print (''Copying:'' @ src_fp), Makedirs (fst (path_split dest_fp))]
      in if dry_run a then tr1 @ copy_stage a rest
         else tr1 @ [Copy src_fp dest_fp] @ copy_stage a rest)"

text \<open>
  The body of \<^verbatim>\<open>worker\<close> for one path taken from the queue; \<open>to\<close> is the target
  extension after normalisation.
\<close>

definition worker :: "args \<Rightarrow> os_env \<Rightarrow> string \<Rightarrow> string \<Rightarrow> effect list" where
  "worker a env to rel_fp =
     (let src_fp = join (SOURCE a) rel_fp;
          dest_fp = join (DEST a) (replace_ext rel_fp to);
          convert_cmd = map (\<lambda>tok. if tok = ''@source'' then src_fp
                                    else if tok = ''@dest'' then dest_fp else tok)
                            (CONVERT_CMD a)
      in if dry_run a then [PrintCmd convert_cmd]
         else
           [Print (''Converting:'' @ src_fp), Makedirs (fst (path_split dest_fp)),
            Run convert_cmd]
           @ (if fst (run_result env convert_cmd) \<noteq> 0 \<or> verbose a
              then [Print (snd (run_result env convert_cmd))] else []))"

text \<open>
  Lines 181 to 197: the threads are started and the queue is drained. The jobs are taken
  here in queue order, one after the other; with several workers their effects interleave,
  but each job runs the same body once. An interrupt while the queue drains is not
  modelled.
\<close>

definition convert_stage :: "args \<Rightarrow> os_env \<Rightarrow> int \<Rightarrow> string \<Rightarrow> string list \<Rightarrow> effect list" where
  "convert_stage a env n to files_to_convert =
     StartThreads n # concat (map (worker a env to) files_to_convert)"

text \<open>Lines 164 to 197, after the plan has been printed and the run confirmed.\<close>

definition sync_stages ::
  "args \<Rightarrow> os_env \<Rightarrow> int \<Rightarrow> string \<Rightarrow> string list \<Rightarrow> string list \<Rightarrow> string list
     \<Rightarrow> effect list \<Rightarrow> effect list" where
  "sync_stages a env n to files_to_delete files_to_copy files_to_convert tr =
     delete_stage a env files_to_delete tr
     @ copy_stage a files_to_copy
     @ convert_stage a env n to files_to_convert"

text \<open>Lines 145 to 197: planning, the report, the confirmation and the three stages.\<close>

definition plan_and_sync ::
  "args \<Rightarrow> os_env \<Rightarrow> int \<Rightarrow> string \<Rightarrow> string list \<Rightarrow> string list \<Rightarrow> outcome \<times> effect list"
where
  "plan_and_sync a env n to froms copies =
     (let (files_to_convert, files_to_delete1) =
            operations_to_sync (tree_at env) (mtime_of env) (ignore_mtime a)
              (SOURCE a) (DEST a) froms (Some to);
          (files_to_copy, files_to_delete2) =
            operations_to_sync (tree_at env) (mtime_of env) (ignore_mtime a)
              (SOURCE a) (DEST a) copies None;
          files_to_delete = files_to_delete1 @ files_to_delete2;
          report = map (\<lambda>f. Print (''delete :'' @ f)) files_to_delete
                 @ map (\<lambda>f. Print (''copy   :'' @ f)) files_to_copy
                 @ map (\<lambda>f. Print (''convert:'' @ f)) files_to_convert
      in if dry_run a then
           (Returned,
            sync_stages a env n to files_to_delete files_to_copy files_to_convert
              (report @ [Print ''-----DRY-RUN-----'']))
         else if noconfirm a then
           (Returned,
            sync_stages a env n to files_to_delete files_to_copy files_to_convert
              (report @ [Print ''-----SYNCING-----'']))
         else
           (case user_confirm (stdin_lines env) of
              (Inl e, asked) \<Rightarrow> (Raised e, report @ asked)
            | (Inr False, asked) \<Rightarrow> (Returned, report @ asked)
            | (Inr True, asked) \<Rightarrow>
                (Returned,
                 sync_stages a env n to files_to_delete files_to_copy files_to_convert
                   (report @ asked @ [Print ''-----SYNCING-----'']))))"

text \<open>
  \<^verbatim>\<open>main\<close>. The template is checked first (\<^verbatim>\<open>exit(1)\<close>), then the thread count and
  the extensions are normalised, in the order of lines 135 to 143.
\<close>

definition template_error :: string where
  "template_error =
     ''Error: CONVERT_CMD does not contain '' @ [CHR 0x27] @ ''@source'' @ [CHR 0x27]
     @ '' and '' @ [CHR 0x27] @ ''@dest'' @ [CHR 0x27]"

definition main :: "args \<Rightarrow> os_env \<Rightarrow> outcome \<times> effect list" where
  "main a env =
     (if ''@source'' \<notin> set (CONVERT_CMD a) \<or> ''@dest'' \<notin> set (CONVERT_CMD a)
      then (Exited 1, [Print template_error])
      else
        case effective_jobs (jobs a) (cpu_count env) of
          Inl e \<Rightarrow> (Raised e, [])
        | Inr n \<Rightarrow>
           (case ensure_dot_prefix (to_ext a) of
              Inl e \<Rightarrow> (Raised e, [])
            | Inr to \<Rightarrow>
               (case ensure_dot_prefix_all (split_comma (from_exts a)) of
                  Inl e \<Rightarrow> (Raised e, [])
                | Inr froms \<Rightarrow>
                   (case (case copy_exts a of
                            None \<Rightarrow> Inr []
                          | Some s \<Rightarrow> if s \<noteq> [] then ensure_dot_prefix_all (split_comma s)
                                      else Inr []) of
                      Inl e \<Rightarrow> (Raised e, [])
                    | Inr copies \<Rightarrow> plan_and_sync a env n to froms copies))))"

section \<open>Example inputs\<close>

text \<open>
  A source tree with one cover image below \<^verbatim>\<open>album\<close>, and an empty destination.
\<close>

definition cover_fs :: filesystem where
  "cover_fs p =
     (if p = ''src'' then Some (Dir True [(''album'', Dir True [(''cover.jpg'', File)])])
      else if p = ''dst'' then Some (Dir True [])
      else None)"

definition quiet_env :: os_env where
  "quiet_env = \<lparr>cpu_count = Some 8, tree_at = cover_fs, mtime_of = (\<lambda>p. 0),
     stdin_lines = [], dir_empty = (\<lambda>tr p. False), run_result = (\<lambda>cmd. (0, []))\<rparr>"

text \<open>
  \<^verbatim>\<open>libraryconvert.py -j -2 -d -f flac -t mp3 -c jpg src dst -- ffmpeg -i @source @dest\<close>
\<close>

definition dry_args :: args where
  "dry_args = \<lparr>jobs = - 2, dry_run = True, noconfirm = False, verbose = False,
     from_exts = ''flac'', to_ext = ''mp3'', copy_exts = Some ''jpg'', ignore_mtime = False,
     SOURCE = ''src'', DEST = ''dst'',
     CONVERT_CMD = [''ffmpeg'', ''-i'', ''@source'', ''@dest'']\<rparr>"

text \<open>
  Three source files against two destination files; \<^verbatim>\<open>src/c.wav\<close> is newer than its
  counterpart.
\<close>

definition wav_ctx :: sync_ctx where
  "wav_ctx = \<lparr>getmtime = (\<lambda>p. if p = ''src/c.wav'' then 2 else 1), args_ignore_mtime = False,
     src = ''src'', dest = ''dst'', dest_ext = Some ''.mp3'',
     src_fps = [''a.wav'', ''c.wav'', ''d.wav''], dest_fps = [''b.mp3'', ''c.mp3'']\<rparr>"

definition start :: merge_state where
  "start = \<lparr>src_i = 0, dest_i = 0, create = [], delete = []\<rparr>"

text \<open>
  A file \<^verbatim>\<open>a.wav\<close> beside a directory \<^verbatim>\<open>a\<close>; a tree with a directory that cannot be
  read; a source with \<^verbatim>\<open>a.flac\<close> and \<^verbatim>\<open>a.g.flac\<close> already converted; a source with
  \<^verbatim>\<open>a.flac\<close> and \<^verbatim>\<open>a.g.mp3\<close> whose destination holds \<^verbatim>\<open>a.g.mp3\<close>.
\<close>

definition order_fs :: filesystem where
  "order_fs p =
     (if p = ''src''
      then Some (Dir True [(''a'', Dir True [(''x.wav'', File)]), (''a.wav'', File)])
      else None)"

definition locked_tree :: node where
  "locked_tree = Dir True [(''a.wav'', File), (''locked'', Dir False [(''z.wav'', File)])]"

definition locked_fs :: filesystem where
  "locked_fs p = (if p = ''src'' then Some locked_tree else None)"

definition twin_fs :: filesystem where
  "twin_fs p =
     (if p = ''src'' then Some (Dir True [(''a.flac'', File), (''a.g.flac'', File)])
      else if p = ''dst'' then Some (Dir True [(''a.mp3'', File), (''a.g.mp3'', File)])
      else None)"

definition remix_fs :: filesystem where
  "remix_fs p =
     (if p = ''src'' then Some (Dir True [(''a.flac'', File), (''a.g.mp3'', File)])
      else if p = ''dst'' then Some (Dir True [(''a.g.mp3'', File)])
      else None)"

section \<open>The listing\<close>

lemma collect_Nil: "collect P [] = []"
  by (simp add: collect_def)

lemma collect_Cons:
  "collect P ((dp, ds, fs) # ws) = map (relpath dp) (filter P fs) @ collect P ws"
  by (simp add: collect_def)

lemma collect_append: "collect P (ws @ ws') = collect P ws @ collect P ws'"
  by (simp add: collect_def)

lemma collect_concat: "collect P (concat wss) = concat (map (collect P) wss)"
  by (induction wss) (simp_all add: collect_Nil collect_append)

lemma sorted_filtered_paths_collect:
  "sorted_filtered_paths fs dir exts = sort (collect (\<lambda>f. ext f \<in> set exts) (os_walk fs dir))"
  by (simp add: sorted_filtered_paths_def collect_def)

lemma file_at_nonempty: "file_at t p \<Longrightarrow> p \<noteq> []"
  by (induction rule: file_at.induct) simp_all

lemma file_at_File: "\<not> file_at File p"
  by (auto elim: file_at.cases)

lemma file_at_unreadable: "\<not> file_at (Dir False es) p"
  by (auto elim: file_at.cases)

lemma file_at_Dir:
  "file_at (Dir True es) q \<longleftrightarrow>
     (\<exists>n. q = [n] \<and> (n, File) \<in> set es)
     \<or> (\<exists>n c p. q = n # p \<and> (n, c) \<in> set es \<and> is_dir c \<and> file_at c p)"
proof
  assume "file_at (Dir True es) q"
  then show "(\<exists>n. q = [n] \<and> (n, File) \<in> set es)
     \<or> (\<exists>n c p. q = n # p \<and> (n, c) \<in> set es \<and> is_dir c \<and> file_at c p)"
  proof (cases rule: file_at.cases)
    case (here n)
    then show ?thesis by simp
  next
    case (below n c p)
    then have "is_dir c" by (cases c) (auto simp: file_at_File)
    with below show ?thesis by auto
  qed
next
  assume "(\<exists>n. q = [n] \<and> (n, File) \<in> set es)
     \<or> (\<exists>n c p. q = n # p \<and> (n, c) \<in> set es \<and> is_dir c \<and> file_at c p)"
  then show "file_at (Dir True es) q"
    by (auto intro: file_at.intros)
qed

lemma not_is_dir: "\<not> is_dir c \<longleftrightarrow> c = File"
  by (cases c) simp_all

lemma walk_files:
  "set (collect P (walk dp t)) = {join_components (dp @ p) | p. file_at t p \<and> P (last p)}"
proof (induction dp t rule: walk.induct)
  case (1 dp t)
  show ?case
  proof (cases t)
    case File
    then show ?thesis by (simp add: walk.simps collect_Nil file_at_File)
  next
    case (Dir r es)
    show ?thesis
    proof (cases r)
      case False
      with Dir show ?thesis by (simp add: walk.simps collect_Nil file_at_unreadable)
    next
      case True
      with Dir have sc: "scandir t = Inr es" by simp
      have ih: "\<And>e. e \<in> set es \<Longrightarrow> is_dir (snd e) \<Longrightarrow>
          set (collect P (walk (dp @ [fst e]) (snd e)))
            = {join_components ((dp @ [fst e]) @ p) | p. file_at (snd e) p \<and> P (last p)}"
        using "1.IH"[OF sc] by blast
      have w: "walk dp t =
          (dp, map fst (filter (\<lambda>e. is_dir (snd e)) es),
               map fst (filter (\<lambda>e. \<not> is_dir (snd e)) es))
          # concat (map (\<lambda>e. if is_dir (snd e) then walk (dp @ [fst e]) (snd e) else []) es)"
        using sc by (simp add: walk.simps[of dp t])
      have lhs: "set (collect P (walk dp t)) =
          {relpath dp n | n. (n, File) \<in> set es \<and> P n}
          \<union> (\<Union>e \<in> {e \<in> set es. is_dir (snd e)}.
                {join_components ((dp @ [fst e]) @ p) | p. file_at (snd e) p \<and> P (last p)})"
      proof -
        have a: "set (map (relpath dp) (filter P (map fst (filter (\<lambda>e. \<not> is_dir (snd e)) es))))
            = {relpath dp n | n. (n, File) \<in> set es \<and> P n}"
          by (force simp: not_is_dir)
        have b: "set (collect P (concat (map (\<lambda>e. if is_dir (snd e)
                      then walk (dp @ [fst e]) (snd e) else []) es)))
            = (\<Union>e \<in> {e \<in> set es. is_dir (snd e)}.
                {join_components ((dp @ [fst e]) @ p) | p. file_at (snd e) p \<and> P (last p)})"
        proof -
          have "set (collect P (concat (map (\<lambda>e. if is_dir (snd e)
                      then walk (dp @ [fst e]) (snd e) else []) es)))
              = (\<Union>e \<in> set es. set (collect P (if is_dir (snd e)
                      then walk (dp @ [fst e]) (snd e) else [])))"
            by (simp add: collect_concat)
          also have "\<dots> = (\<Union>e \<in> {e \<in> set es. is_dir (snd e)}.
                set (collect P (walk (dp @ [fst e]) (snd e))))"
            by (auto simp: collect_Nil split: if_splits)
          also have "\<dots> = (\<Union>e \<in> {e \<in> set es. is_dir (snd e)}.
                {join_components ((dp @ [fst e]) @ p) | p. file_at (snd e) p \<and> P (last p)})"
            using ih by simp
          finally show ?thesis .
        qed
        show ?thesis
          unfolding w collect_Cons set_append a b ..
      qed
      have rhs: "{join_components (dp @ q) | q. file_at (Dir True es) q \<and> P (last q)} =
          {relpath dp n | n. (n, File) \<in> set es \<and> P n}
          \<union> (\<Union>e \<in> {e \<in> set es. is_dir (snd e)}.
                {join_components ((dp @ [fst e]) @ p) | p. file_at (snd e) p \<and> P (last p)})"
        (is "?A = ?B \<union> ?C")
      proof (intro equalityI subsetI)
        fix x assume "x \<in> ?A"
        then obtain q where q: "x = join_components (dp @ q)" "file_at (Dir True es) q" "P (last q)"
          by blast
        from q(2) consider (h) n where "q = [n]" "(n, File) \<in> set es"
          | (b) n c p where "q = n # p" "(n, c) \<in> set es" "is_dir c" "file_at c p"
          unfolding file_at_Dir by blast
        then show "x \<in> ?B \<union> ?C"
        proof cases
          case h
          with q have "x \<in> ?B" by (auto simp: relpath_def)
          then show ?thesis ..
        next
          case b
          from b(4) have "p \<noteq> []" by (rule file_at_nonempty)
          with q b have "P (last p)" by simp
          with q b have "x \<in> ?C"
            by (auto intro!: bexI[of _ "(n, c)"] exI[of _ p])
          then show ?thesis ..
        qed
      next
        fix x assume "x \<in> ?B \<union> ?C"
        then show "x \<in> ?A"
        proof
          assume "x \<in> ?B"
          then obtain n where "x = relpath dp n" "(n, File) \<in> set es" "P n" by blast
          then show ?thesis
            by (auto simp: relpath_def file_at_Dir intro!: exI[of _ "[n]"])
        next
          assume "x \<in> ?C"
          then obtain e p where e: "e \<in> set es" "is_dir (snd e)"
            "x = join_components ((dp @ [fst e]) @ p)" "file_at (snd e) p" "P (last p)"
            by blast
          from e(4) have "p \<noteq> []" by (rule file_at_nonempty)
          have "(fst e, snd e) \<in> set es" using e(1) by simp
          then have "file_at (Dir True es) (fst e # p)"
            using e(4) by (rule file_at.below)
          with e(5) \<open>p \<noteq> []\<close>
          have "file_at (Dir True es) (fst e # p) \<and> P (last (fst e # p))"
            by simp
          with e(3) show ?thesis
            by (auto intro!: exI[of _ "fst e # p"])
        qed
      qed
      from lhs rhs Dir True show ?thesis by simp
    qed
  qed
qed

text \<open>
  Claim C3, as the code has it. The listing holds exactly the paths of the files that are
  reached through readable directories and whose extension is in the list; it is in
  ascending order of the path strings, the slash being compared as any other character;
  and it depends on nothing but the tree at the root and the extension list.
\<close>

theorem listing_sorted_by_string:
  "sorted (sorted_filtered_paths fs dir exts)
   \<and> set (sorted_filtered_paths fs dir exts)
       = (case fs dir of
            None \<Rightarrow> {}
          | Some t \<Rightarrow> {join_components p | p. file_at t p \<and> ext (last p) \<in> set exts})
   \<and> (fs dir = fs' dir' \<longrightarrow>
         sorted_filtered_paths fs dir exts = sorted_filtered_paths fs' dir' exts)"
proof (intro conjI impI)
  show "sorted (sorted_filtered_paths fs dir exts)"
    by (simp add: sorted_filtered_paths_def)
  show "set (sorted_filtered_paths fs dir exts)
       = (case fs dir of
            None \<Rightarrow> {}
          | Some t \<Rightarrow> {join_components p | p. file_at t p \<and> ext (last p) \<in> set exts})"
    using walk_files[of "\<lambda>f. ext f \<in> set exts" "[]"]
    by (simp add: sorted_filtered_paths_collect os_walk_def collect_Nil split: option.splits)
  assume "fs dir = fs' dir'"
  then show "sorted_filtered_paths fs dir exts = sorted_filtered_paths fs' dir' exts"
    by (simp add: sorted_filtered_paths_def os_walk_def)
qed


theorem listing_sorted_by_string_witness:
  "sorted (sorted_filtered_paths order_fs ''src'' [''.wav''])
   \<and> ''a/x.wav'' \<in> set (sorted_filtered_paths order_fs ''src'' [''.wav''])"
proof -
  have f: "file_at (Dir True [(''a'', Dir True [(''x.wav'', File)]), (''a.wav'', File)])
             [''a'', ''x.wav'']"
    by (rule file_at.below[where c = "Dir True [(''x.wav'', File)]"])
       (simp_all add: file_at.here)
  have e: "ext (last [''a'', ''x.wav'']) \<in> set [''.wav'']"
    by code_simp
  have "''a/x.wav'' = join_components [''a'', ''x.wav'']" by simp
  with f e have "''a/x.wav'' \<in> {join_components p | p.
      file_at (Dir True [(''a'', Dir True [(''x.wav'', File)]), (''a.wav'', File)]) p
      \<and> ext (last p) \<in> set [''.wav'']}"
    by blast
  with listing_sorted_by_string[of order_fs "''src''" "[''.wav'']" order_fs "''src''"]
  show ?thesis by (simp add: order_fs_def)
qed

text \<open>
  Claim C3 as stated asks for the order of the component sequences. With a file
  \<^verbatim>\<open>a.wav\<close> beside a directory \<^verbatim>\<open>a\<close> the listing is \<^verbatim>\<open>a.wav\<close>, \<^verbatim>\<open>a/x.wav\<close>, while the
  component sequence of \<^verbatim>\<open>a/x.wav\<close> is the smaller one.
\<close>

theorem listing_component_order_counterexample:
  "sorted_filtered_paths order_fs ''src'' [''.wav''] = [''a.wav'', ''a/x.wav'']
   \<and> map path_components [''a.wav'', ''a/x.wav''] = [[''a.wav''], [''a'', ''x.wav'']]
   \<and> \<not> sorted (map path_components (sorted_filtered_paths order_fs ''src'' [''.wav'']))"
  by code_simp

lemma is_dir_readable_part: "is_dir (readable_part c) = is_dir c"
  by (cases c) simp_all

lemma readable_part_File: "readable_part c = File \<longleftrightarrow> c = File"
  by (cases c) simp_all

lemma walk_readable_part:
  "collect P (walk dp (readable_part t)) = collect P (walk dp t)"
proof (induction dp t rule: walk.induct)
  case (1 dp t)
  show ?case
  proof (cases t)
    case File
    then show ?thesis by simp
  next
    case (Dir r es)
    show ?thesis
    proof (cases r)
      case False
      with Dir show ?thesis
        by (simp add: walk.simps[of dp "Dir False es"] walk.simps[of dp "Dir True []"]
            collect_Cons collect_Nil)
    next
      case True
      with Dir have sc: "scandir t = Inr es" by simp
      have ih: "\<And>e. e \<in> set es \<Longrightarrow> is_dir (snd e) \<Longrightarrow>
          collect P (walk (dp @ [fst e]) (readable_part (snd e)))
            = collect P (walk (dp @ [fst e]) (snd e))"
        using "1.IH"[OF sc] by blast
      have names: "map fst (filter (\<lambda>e. \<not> is_dir (snd e))
                     (map (\<lambda>e. (fst e, readable_part (snd e))) es))
                 = map fst (filter (\<lambda>e. \<not> is_dir (snd e)) es)"
        by (induction es) (simp_all add: is_dir_readable_part)
      have subs: "concat (map (collect P)
                    (map (\<lambda>e. if is_dir (snd e) then walk (dp @ [fst e]) (snd e) else [])
                       (map (\<lambda>e. (fst e, readable_part (snd e))) es)))
                = concat (map (collect P)
                    (map (\<lambda>e. if is_dir (snd e) then walk (dp @ [fst e]) (snd e) else []) es))"
        using ih by (induction es) (simp_all add: is_dir_readable_part collect_Nil)
      show ?thesis
        using Dir True names subs
        by (simp add: walk.simps[of dp "Dir True es"]
            walk.simps[of dp "Dir True (map (\<lambda>e. (fst e, readable_part (snd e))) es)"]
            collect_Cons collect_concat)
    qed
  qed
qed

lemma readable_part_no_unreadable: "\<not> has_unreadable (readable_part t)"
  by (induction t rule: readable_part.induct) (auto simp: list_ex_iff)

lemma readable_part_id: "\<not> has_unreadable t \<Longrightarrow> readable_part t = t"
  by (induction t rule: readable_part.induct) (auto simp: list_ex_iff map_idI)

text \<open>
  Claim C4, as the code has it. The listing never fails: it is the listing of the tree in
  which every directory that cannot be read is empty, so such a directory is skipped with
  all that lies below it; a root that does not exist gives the empty listing.
\<close>

theorem unreadable_directory_skipped:
  "\<not> has_unreadable (readable_part t)
   \<and> (\<not> has_unreadable t \<longrightarrow> readable_part t = t)
   \<and> (fs dir = Some t \<longrightarrow>
        sorted_filtered_paths fs dir exts
          = sorted_filtered_paths (fs(dir \<mapsto> readable_part t)) dir exts)
   \<and> (fs dir = None \<longrightarrow> sorted_filtered_paths fs dir exts = [])"
  by (simp add: readable_part_no_unreadable readable_part_id
      sorted_filtered_paths_collect os_walk_def walk_readable_part collect_Nil)

theorem unreadable_directory_skipped_witness:
  "readable_part locked_tree = Dir True [(''a.wav'', File), (''locked'', Dir True [])]
   \<and> sorted_filtered_paths locked_fs ''src'' [''.wav'']
       = sorted_filtered_paths (locked_fs(''src'' \<mapsto> readable_part locked_tree)) ''src'' [''.wav'']
   \<and> sorted_filtered_paths (locked_fs(''src'' \<mapsto> readable_part locked_tree)) ''src'' [''.wav'']
       = [''a.wav'']"
proof -
  have s: "locked_fs ''src'' = Some locked_tree" by (simp add: locked_fs_def)
  have r: "readable_part locked_tree = Dir True [(''a.wav'', File), (''locked'', Dir True [])]"
    by (simp add: locked_tree_def)
  have v: "sorted_filtered_paths (locked_fs(''src'' \<mapsto> readable_part locked_tree)) ''src''
      [''.wav''] = [''a.wav'']"
    by code_simp
  from unreadable_directory_skipped[of locked_tree locked_fs "''src''" "[''.wav'']"] s r v
  show ?thesis by simp
qed


text \<open>
  Claim C4 as stated: a directory that cannot be read makes the listing fail. Here
  \<^verbatim>\<open>locked\<close> cannot be scanned, and the listing is returned without \<^verbatim>\<open>locked/z.wav\<close>.
\<close>

theorem unreadable_directory_counterexample:
  "scandir (Dir False [(''z.wav'', File)]) = Inl PermissionError
   \<and> has_unreadable locked_tree
   \<and> sorted_filtered_paths locked_fs ''src'' [''.wav''] = [''a.wav'']"
  by code_simp

section \<open>The merge loop\<close>

lemma merge_loop_exhausted:
  "\<not> (src_i (merge_loop c st) < length (src_fps c)
      \<and> dest_i (merge_loop c st) < length (dest_fps c))"
proof (induction c st rule: merge_loop.induct)
  case (1 c st)
  show ?case
  proof (cases "src_i st < length (src_fps c) \<and> dest_i st < length (dest_fps c)")
    case True
    then have "merge_loop c st = merge_loop c (loop_body c st)"
      by (simp add: merge_loop.simps[of c st])
    with 1 True show ?thesis by simp
  next
    case False
    then have "merge_loop c st = st" using merge_loop.simps[of c st] by auto
    with False show ?thesis by simp
  qed
qed

text \<open>
  Claim C1. The differ is a two-pointer merge. While both indices are in range: when the
  remapped source entry is greater than the destination entry, one pass appends the
  destination entry to the delete list and advances the destination index only; when it
  is smaller, one pass appends the original source entry to the create list and advances
  the source index only. The loop stops exactly when an index is out of range, and the
  result is the two lists followed by all remaining source entries and all remaining
  destination entries. For a non-empty extension list \<^verbatim>\<open>operations_to_sync\<close> is this
  loop, started at the two sorted listings with empty lists.
\<close>

theorem two_pointer_merge:
  "(src_i st < length (src_fps c) \<and> dest_i st < length (dest_fps c)
      \<and> src_fp_srt (dest_ext c) (src_fps c ! src_i st) > dest_fps c ! dest_i st
    \<longrightarrow> loop_body c st
          = st\<lparr>dest_i := dest_i st + 1, delete := delete st @ [dest_fps c ! dest_i st]\<rparr>
        \<and> merge_loop c st = merge_loop c (loop_body c st))
   \<and> (src_i st < length (src_fps c) \<and> dest_i st < length (dest_fps c)
      \<and> src_fp_srt (dest_ext c) (src_fps c ! src_i st) < dest_fps c ! dest_i st
    \<longrightarrow> loop_body c st
          = st\<lparr>src_i := src_i st + 1, create := create st @ [src_fps c ! src_i st]\<rparr>
        \<and> merge_loop c st = merge_loop c (loop_body c st))
   \<and> (\<not> (src_i st < length (src_fps c) \<and> dest_i st < length (dest_fps c))
    \<longrightarrow> merge_loop c st = st)
   \<and> \<not> (src_i (merge_loop c st) < length (src_fps c)
         \<and> dest_i (merge_loop c st) < length (dest_fps c))
   \<and> leftovers c (merge_loop c st)
       = (create (merge_loop c st) @ drop (src_i (merge_loop c st)) (src_fps c),
          delete (merge_loop c st) @ drop (dest_i (merge_loop c st)) (dest_fps c))
   \<and> (exts \<noteq> [] \<and> de = Some e \<and> e \<noteq> []
        \<and> c = \<lparr>getmtime = mtime, args_ignore_mtime = ignore, src = s, dest = d,
                 dest_ext = de, src_fps = sorted_filtered_paths fs s exts,
                 dest_fps = sorted_filtered_paths fs d [e]\<rparr>
      \<longrightarrow> operations_to_sync fs mtime ignore s d exts de
            = leftovers c (merge_loop c \<lparr>src_i = 0, dest_i = 0, create = [], delete = []\<rparr>))
   \<and> (exts \<noteq> []
        \<and> c = \<lparr>getmtime = mtime, args_ignore_mtime = ignore, src = s, dest = d,
                 dest_ext = None, src_fps = sorted_filtered_paths fs s exts,
                 dest_fps = sorted_filtered_paths fs d exts\<rparr>
      \<longrightarrow> operations_to_sync fs mtime ignore s d exts None
            = leftovers c (merge_loop c \<lparr>src_i = 0, dest_i = 0, create = [], delete = []\<rparr>))"
proof (intro conjI impI)
  assume "src_i st < length (src_fps c) \<and> dest_i st < length (dest_fps c)
      \<and> src_fp_srt (dest_ext c) (src_fps c ! src_i st) > dest_fps c ! dest_i st"
  then show "loop_body c st
          = st\<lparr>dest_i := dest_i st + 1, delete := delete st @ [dest_fps c ! dest_i st]\<rparr>"
    and "merge_loop c st = merge_loop c (loop_body c st)"
    by (auto simp: loop_body_def Let_def merge_loop.simps[of c st])
next
  assume "src_i st < length (src_fps c) \<and> dest_i st < length (dest_fps c)
      \<and> src_fp_srt (dest_ext c) (src_fps c ! src_i st) < dest_fps c ! dest_i st"
  then show "loop_body c st
          = st\<lparr>src_i := src_i st + 1, create := create st @ [src_fps c ! src_i st]\<rparr>"
    and "merge_loop c st = merge_loop c (loop_body c st)"
    by (auto simp: loop_body_def Let_def merge_loop.simps[of c st])
next
  assume "\<not> (src_i st < length (src_fps c) \<and> dest_i st < length (dest_fps c))"
  then show "merge_loop c st = st"
    using merge_loop.simps[of c st] by auto
next
  show "\<not> (src_i (merge_loop c st) < length (src_fps c)
         \<and> dest_i (merge_loop c st) < length (dest_fps c))"
    by (rule merge_loop_exhausted)
next
  show "leftovers c (merge_loop c st)
       = (create (merge_loop c st) @ drop (src_i (merge_loop c st)) (src_fps c),
          delete (merge_loop c st) @ drop (dest_i (merge_loop c st)) (dest_fps c))"
    by (simp add: leftovers_def)
next
  assume "exts \<noteq> [] \<and> de = Some e \<and> e \<noteq> []
        \<and> c = \<lparr>getmtime = mtime, args_ignore_mtime = ignore, src = s, dest = d,
                 dest_ext = de, src_fps = sorted_filtered_paths fs s exts,
                 dest_fps = sorted_filtered_paths fs d [e]\<rparr>"
  then show "operations_to_sync fs mtime ignore s d exts de
            = leftovers c (merge_loop c \<lparr>src_i = 0, dest_i = 0, create = [], delete = []\<rparr>)"
    by (simp add: operations_to_sync_def Let_def)
next
  assume "exts \<noteq> []
        \<and> c = \<lparr>getmtime = mtime, args_ignore_mtime = ignore, src = s, dest = d,
                 dest_ext = None, src_fps = sorted_filtered_paths fs s exts,
                 dest_fps = sorted_filtered_paths fs d exts\<rparr>"
  then show "operations_to_sync fs mtime ignore s d exts None
            = leftovers c (merge_loop c \<lparr>src_i = 0, dest_i = 0, create = [], delete = []\<rparr>)"
    by (simp add: operations_to_sync_def Let_def)
qed

theorem two_pointer_merge_witness:
  "loop_body wav_ctx start = start\<lparr>src_i := 1, create := [''a.wav'']\<rparr>
   \<and> loop_body wav_ctx (start\<lparr>src_i := 1, create := [''a.wav'']\<rparr>)
       = start\<lparr>src_i := 1, dest_i := 1, create := [''a.wav''], delete := [''b.mp3'']\<rparr>
   \<and> leftovers wav_ctx (merge_loop wav_ctx start)
       = ([''a.wav'', ''c.wav'', ''d.wav''], [''b.mp3''])"
proof -
  have lt: "src_i start < length (src_fps wav_ctx) \<and> dest_i start < length (dest_fps wav_ctx)
      \<and> src_fp_srt (dest_ext wav_ctx) (src_fps wav_ctx ! src_i start)
          < dest_fps wav_ctx ! dest_i start"
    by code_simp
  define st1 where "st1 = start\<lparr>src_i := 1, create := [''a.wav'']\<rparr>"
  have gt: "src_i st1 < length (src_fps wav_ctx) \<and> dest_i st1 < length (dest_fps wav_ctx)
      \<and> src_fp_srt (dest_ext wav_ctx) (src_fps wav_ctx ! src_i st1)
          > dest_fps wav_ctx ! dest_i st1"
    unfolding st1_def by code_simp
  have fin: "merge_loop wav_ctx start
      = \<lparr>src_i = 2, dest_i = 2, create = [''a.wav'', ''c.wav''], delete = [''b.mp3'']\<rparr>"
    by code_simp
  from two_pointer_merge[of start wav_ctx] lt
  have a: "loop_body wav_ctx start
      = start\<lparr>src_i := src_i start + 1,
               create := create start @ [src_fps wav_ctx ! src_i start]\<rparr>"
    by blast
  from two_pointer_merge[of st1 wav_ctx] gt
  have b: "loop_body wav_ctx st1
      = st1\<lparr>dest_i := dest_i st1 + 1,
             delete := delete st1 @ [dest_fps wav_ctx ! dest_i st1]\<rparr>"
    by blast
  from two_pointer_merge[of start wav_ctx]
  have c: "leftovers wav_ctx (merge_loop wav_ctx start)
       = (create (merge_loop wav_ctx start)
            @ drop (src_i (merge_loop wav_ctx start)) (src_fps wav_ctx),
          delete (merge_loop wav_ctx start)
            @ drop (dest_i (merge_loop wav_ctx start)) (dest_fps wav_ctx))"
    by blast
  show ?thesis
    using a b c unfolding fin st1_def
    by (simp add: start_def wav_ctx_def)
qed

text \<open>
  The third branch of the loop body. When the remapped source entry under the source index
  equals the destination entry under the destination index, the source entry is appended
  to the create list if and only if the modification-time check is enabled and the source
  file is strictly newer; nothing is deleted and both indices advance.
\<close>

lemma loop_body_equal:
  "src_i st < length (src_fps c) \<and> dest_i st < length (dest_fps c)
      \<and> src_fp_srt (dest_ext c) (src_fps c ! src_i st) = dest_fps c ! dest_i st
   \<longrightarrow> create (loop_body c st)
         = (if \<not> args_ignore_mtime c
               \<and> getmtime c (join (src c) (src_fps c ! src_i st))
                   > getmtime c (join (dest c) (dest_fps c ! dest_i st))
            then create st @ [src_fps c ! src_i st] else create st)
       \<and> (args_ignore_mtime c \<longrightarrow> create (loop_body c st) = create st)
       \<and> delete (loop_body c st) = delete st
       \<and> src_i (loop_body c st) = src_i st + 1
       \<and> dest_i (loop_body c st) = dest_i st + 1
       \<and> merge_loop c st = merge_loop c (loop_body c st)"
  by (simp add: loop_body_def Let_def merge_loop.simps[of c st])

section \<open>The run: configuration\<close>

text \<open>
  Claim C5. With an empty extension list the differ returns the empty plan, whatever the
  two trees and the modification times are.
\<close>

theorem empty_exts_empty_plan:
  "operations_to_sync fs mtime ignore s d [] de = ([], [])"
  by (simp add: operations_to_sync_def)

theorem empty_exts_empty_plan_witness:
  "operations_to_sync cover_fs (\<lambda>p. 0) False ''src'' ''dst'' [] None = ([], [])"
  by (rule empty_exts_empty_plan)

text \<open>
  Claim C6. A command template without \<^verbatim>\<open>@source\<close> or without \<^verbatim>\<open>@dest\<close> ends the run
  with exit status 1; the only effect is the error line, whatever the environment is.
\<close>

theorem template_checked_first:
  "''@source'' \<notin> set (CONVERT_CMD a) \<or> ''@dest'' \<notin> set (CONVERT_CMD a)
   \<Longrightarrow> main a env = (Exited 1, [Print template_error])"
  by (auto simp: main_def)

theorem template_checked_first_witness:
  "main (dry_args\<lparr>CONVERT_CMD := [''ffmpeg'', ''-i'', ''@source'']\<rparr>) quiet_env
     = (Exited 1, [Print template_error])"
  by (rule template_checked_first) (simp add: dry_args_def)

lemma sync_stages_threads:
  "StartThreads n \<in> set (sync_stages a env n to ds cs vs tr)"
  by (simp add: sync_stages_def convert_stage_def)

lemma plan_and_sync_threads:
  "plan_and_sync a env n to froms copies = (out, tr) \<Longrightarrow> dry_run a \<or> noconfirm a
     \<Longrightarrow> StartThreads n \<in> set tr"
  by (auto simp: plan_and_sync_def Let_def sync_stages_threads split: prod.splits if_splits)

text \<open>
  Claim C7. With \<open>j\<close> configured workers and \<open>c\<close> processors, the number of workers is
  \<open>j\<close> when \<open>j\<close> is positive and otherwise \<open>c - |j|\<close>, but at least 1; a run that reaches
  the worker pool starts that many threads.
\<close>

theorem worker_count:
  "effective_jobs j (Some c) = Inr (if 0 < j then j else max 1 (c - \<bar>j\<bar>))
   \<and> (jobs a = j \<and> cpu_count env = Some c \<and> (dry_run a \<or> noconfirm a)
        \<and> main a env = (Returned, tr)
      \<longrightarrow> StartThreads (if 0 < j then j else max 1 (c - \<bar>j\<bar>)) \<in> set tr)"
proof (intro conjI impI)
  show v: "effective_jobs j (Some c) = Inr (if 0 < j then j else max 1 (c - \<bar>j\<bar>))"
    by (simp add: effective_jobs_def Let_def max_def)
  assume h: "jobs a = j \<and> cpu_count env = Some c \<and> (dry_run a \<or> noconfirm a)
        \<and> main a env = (Returned, tr)"
  then show "StartThreads (if 0 < j then j else max 1 (c - \<bar>j\<bar>)) \<in> set tr"
    using v
    by (auto simp: main_def split: if_splits sum.splits option.splits
        dest: plan_and_sync_threads)
qed

theorem worker_count_witness:
  "effective_jobs (- 2) (Some 8) = Inr 6 \<and> StartThreads 6 \<in> set (snd (main dry_args quiet_env))"
proof -
  have m: "main dry_args quiet_env =
    (Returned,
     [Print ''copy   :album/cover.jpg'', Print ''-----DRY-RUN-----'',
      Print ''Copying:src/album/cover.jpg'', Makedirs ''dst/album'', StartThreads 6])"
    by code_simp
  have h: "jobs dry_args = - 2 \<and> cpu_count quiet_env = Some 8
      \<and> (dry_run dry_args \<or> noconfirm dry_args)"
    by (simp add: dry_args_def quiet_env_def)
  from worker_count[of "- 2" 8 dry_args quiet_env] h m show ?thesis
    by simp
qed

lemma ensure_dot_prefix_all_empty_token:
  "[] \<in> set xs \<Longrightarrow> ensure_dot_prefix_all xs = Inl IndexError"
proof (induction xs)
  case Nil
  then show ?case by simp
next
  case (Cons x xs)
  show ?case
  proof (cases x)
    case Nil
    then show ?thesis by simp
  next
    case (Cons c cs)
    with Cons.prems have "[] \<in> set xs" by simp
    then have "ensure_dot_prefix_all xs = Inl IndexError" by (rule Cons.IH)
    with Cons show ?thesis by simp
  qed
qed

lemma ensure_dot_prefix_cases:
  "ensure_dot_prefix x = Inl IndexError \<or> (\<exists>y. ensure_dot_prefix x = Inr y)"
  by (cases x) auto

lemma ensure_dot_prefix_all_cases:
  "ensure_dot_prefix_all xs = Inl IndexError \<or> (\<exists>ys. ensure_dot_prefix_all xs = Inr ys)"
proof (induction xs)
  case Nil
  then show ?case by simp
next
  case (Cons x xs)
  with ensure_dot_prefix_cases[of x] show ?case by auto
qed

lemma split_comma_nonempty: "split_comma s \<noteq> []"
  by (induction s) auto

lemma split_comma_trailing: "split_comma (s @ '','') = split_comma s @ [[]]"
  by (induction s) (simp_all add: split_comma_nonempty)

text \<open>
  Claim C10. \<^verbatim>\<open>ensure_dot_prefix\<close> raises IndexError on the empty string; on every other
  string it returns a string that starts with a dot and that it leaves unchanged. A
  trailing comma gives an empty piece, and a run whose template is valid and whose thread
  count can be computed ends with IndexError and without any effect when the target
  extension is empty or one of the two extension lists has an empty piece.
\<close>

theorem ensure_dot_prefix_partial:
  "ensure_dot_prefix [] = Inl IndexError
   \<and> (s \<noteq> [] \<longrightarrow>
        (\<exists>r. ensure_dot_prefix s = Inr r \<and> hd r = CHR ''.'' \<and> ensure_dot_prefix r = Inr r))
   \<and> [] \<in> set (split_comma (s @ '',''))
   \<and> (''@source'' \<in> set (CONVERT_CMD a) \<and> ''@dest'' \<in> set (CONVERT_CMD a)
        \<and> (0 < jobs a \<or> cpu_count env \<noteq> None)
        \<and> (to_ext a = [] \<or> [] \<in> set (split_comma (from_exts a))
             \<or> (\<exists>cs. copy_exts a = Some cs \<and> cs \<noteq> [] \<and> [] \<in> set (split_comma cs)))
      \<longrightarrow> main a env = (Raised IndexError, []))"
proof (intro conjI impI)
  show "ensure_dot_prefix [] = Inl IndexError" by simp
next
  assume "s \<noteq> []"
  then show "\<exists>r. ensure_dot_prefix s = Inr r \<and> hd r = CHR ''.'' \<and> ensure_dot_prefix r = Inr r"
    by (cases s) auto
next
  show "[] \<in> set (split_comma (s @ '',''))"
    by (simp add: split_comma_trailing)
next
  assume h: "''@source'' \<in> set (CONVERT_CMD a) \<and> ''@dest'' \<in> set (CONVERT_CMD a)
        \<and> (0 < jobs a \<or> cpu_count env \<noteq> None)
        \<and> (to_ext a = [] \<or> [] \<in> set (split_comma (from_exts a))
             \<or> (\<exists>cs. copy_exts a = Some cs \<and> cs \<noteq> [] \<and> [] \<in> set (split_comma cs)))"
  then have "\<exists>n. effective_jobs (jobs a) (cpu_count env) = Inr n"
    by (cases "cpu_count env") (auto simp: effective_jobs_def Let_def)
  then obtain n where n: "effective_jobs (jobs a) (cpu_count env) = Inr n" ..
  note all = ensure_dot_prefix_all_cases
  note one = ensure_dot_prefix_cases[of "to_ext a"]
  from h consider (t) "to_ext a = []"
    | (f) "[] \<in> set (split_comma (from_exts a))"
    | (c) cs where "copy_exts a = Some cs" "cs \<noteq> []" "[] \<in> set (split_comma cs)"
    by blast
  then show "main a env = (Raised IndexError, [])"
  proof cases
    case t
    with h n show ?thesis by (simp add: main_def)
  next
    case f
    then have "ensure_dot_prefix_all (split_comma (from_exts a)) = Inl IndexError"
      by (rule ensure_dot_prefix_all_empty_token)
    with h n one show ?thesis by (auto simp: main_def)
  next
    case c
    then have "ensure_dot_prefix_all (split_comma cs) = Inl IndexError"
      by (simp add: ensure_dot_prefix_all_empty_token)
    with h n one all[of "split_comma (from_exts a)"] c show ?thesis
      by (auto simp: main_def)
  qed
qed

theorem ensure_dot_prefix_partial_witness:
  "ensure_dot_prefix ''mp3'' = Inr ''.mp3'' \<and> ensure_dot_prefix ''.mp3'' = Inr ''.mp3''
   \<and> main (dry_args\<lparr>from_exts := ''flac,''\<rparr>) quiet_env = (Raised IndexError, [])"
proof -
  have h: "''@source'' \<in> set (CONVERT_CMD (dry_args\<lparr>from_exts := ''flac,''\<rparr>))
       \<and> ''@dest'' \<in> set (CONVERT_CMD (dry_args\<lparr>from_exts := ''flac,''\<rparr>))
       \<and> (0 < jobs (dry_args\<lparr>from_exts := ''flac,''\<rparr>) \<or> cpu_count quiet_env \<noteq> None)"
    by (simp add: dry_args_def quiet_env_def)
  have e: "[] \<in> set (split_comma (from_exts (dry_args\<lparr>from_exts := ''flac,''\<rparr>)))"
    by (simp add: dry_args_def)
  from ensure_dot_prefix_partial[of "''mp3''" "dry_args\<lparr>from_exts := ''flac,''\<rparr>" quiet_env] h e
  have "main (dry_args\<lparr>from_exts := ''flac,''\<rparr>) quiet_env = (Raised IndexError, [])"
    by blast
  then show ?thesis by simp
qed


section \<open>The run: simulation mode\<close>

text \<open>
  In a dry run the three stages only print, start the threads and, in the copy loop,
  call \<^verbatim>\<open>os.makedirs\<close>: no file is removed or copied and no converter command is run.
\<close>

lemma delete_stage_dry:
  "dry_run a \<Longrightarrow> set (delete_stage a env fps tr) \<subseteq> set tr \<union> range Print"
proof (induction fps arbitrary: tr)
  case Nil
  then show ?case by simp
next
  case (Cons fp fps)
  let ?tr1 = "tr @ [Print (''Removing:'' @ join (DEST a) fp)]"
  from Cons.prems have "delete_stage a env (fp # fps) tr = delete_stage a env fps ?tr1"
    by (simp add: Let_def)
  moreover from Cons.IH[OF Cons.prems, of ?tr1]
  have "set (delete_stage a env fps ?tr1) \<subseteq> set tr \<union> range Print"
    by auto
  ultimately show ?case by simp
qed

lemma copy_stage_dry:
  "dry_run a \<Longrightarrow> set (copy_stage a fps) \<subseteq> range Print \<union> range Makedirs"
  by (induction fps) (auto simp: Let_def)

lemma worker_dry: "dry_run a \<Longrightarrow> set (worker a env to fp) \<subseteq> range PrintCmd"
  by (auto simp: worker_def Let_def)

lemma convert_stage_dry:
  "dry_run a \<Longrightarrow> set (convert_stage a env n to fps) \<subseteq> range StartThreads \<union> range PrintCmd"
  using worker_dry[of a env to] by (auto simp: convert_stage_def)

lemma sync_stages_dry:
  "dry_run a \<Longrightarrow>
   set (sync_stages a env n to ds cs vs tr)
     \<subseteq> set tr \<union> range Print \<union> range PrintCmd \<union> range StartThreads \<union> range Makedirs"
  using delete_stage_dry[of a env ds tr] copy_stage_dry[of a cs]
    convert_stage_dry[of a env n to vs]
  by (auto simp: sync_stages_def)

lemma sync_stages_dry_no_copy:
  "dry_run a \<Longrightarrow>
   set (sync_stages a env n to ds [] vs tr)
     \<subseteq> set tr \<union> range Print \<union> range PrintCmd \<union> range StartThreads"
  using delete_stage_dry[of a env ds tr] convert_stage_dry[of a env n to vs]
  by (auto simp: sync_stages_def)

lemma plan_and_sync_dry:
  "dry_run a \<Longrightarrow>
   set (snd (plan_and_sync a env n to froms copies))
     \<subseteq> range Print \<union> range PrintCmd \<union> range StartThreads \<union> range Makedirs"
proof -
  assume d: "dry_run a"
  obtain cv d1 where p1: "operations_to_sync (tree_at env) (mtime_of env) (ignore_mtime a)
      (SOURCE a) (DEST a) froms (Some to) = (cv, d1)" by (cases "operations_to_sync (tree_at env) (mtime_of env) (ignore_mtime a)
      (SOURCE a) (DEST a) froms (Some to)")
  obtain cp d2 where p2: "operations_to_sync (tree_at env) (mtime_of env) (ignore_mtime a)
      (SOURCE a) (DEST a) copies None = (cp, d2)" by (cases "operations_to_sync (tree_at env) (mtime_of env) (ignore_mtime a)
      (SOURCE a) (DEST a) copies None")
  show ?thesis
    using d sync_stages_dry[OF d, of env n to "d1 @ d2" cp cv
        "map (\<lambda>f. Print (''delete :'' @ f)) (d1 @ d2)
         @ map (\<lambda>f. Print (''copy   :'' @ f)) cp
         @ map (\<lambda>f. Print (''convert:'' @ f)) cv @ [Print ''-----DRY-RUN-----'']"]
    by (auto simp: plan_and_sync_def p1 p2 Let_def)
qed

lemma main_dry_effects:
  "dry_run a \<Longrightarrow>
   set (snd (main a env))
     \<subseteq> range Print \<union> range PrintCmd \<union> range StartThreads \<union> range Makedirs"
  using plan_and_sync_dry[of a env]
  by (auto simp: main_def split: sum.splits option.splits if_splits)

text \<open>
  Claim C2 at a dry run with one file to copy: the destination is empty, and the run
  calls \<^verbatim>\<open>os.makedirs\<close> for \<^verbatim>\<open>dst/album\<close>.
\<close>

theorem dry_run_makedirs:
  "dry_run dry_args
   \<and> tree_at quiet_env ''dst'' = Some (Dir True [])
   \<and> main dry_args quiet_env =
       (Returned,
        [Print ''copy   :album/cover.jpg'', Print ''-----DRY-RUN-----'',
         Print ''Copying:src/album/cover.jpg'', Makedirs ''dst/album'', StartThreads 6])"
  by code_simp

theorem dry_run_makedirs_witness:
  "Makedirs ''dst/album'' \<in> set (snd (main dry_args quiet_env))"
  using dry_run_makedirs by simp

section \<open>The differ: create against delete\<close>

text \<open>
  Without a target extension (the plan for the copies) the names are compared as they
  are listed. The loop then keeps every deleted entry below all source entries still to
  come and every created entry below all destination entries still to come, so that for
  sorted listings, the destination listing without repetition, no path is both created
  and deleted.
\<close>

definition merge_inv :: "sync_ctx \<Rightarrow> merge_state \<Rightarrow> bool" where
  "merge_inv c st \<longleftrightarrow>
     (\<forall>x \<in> set (delete st). \<forall>y \<in> set (drop (src_i st) (src_fps c)). x < y)
     \<and> (\<forall>x \<in> set (create st). \<forall>y \<in> set (drop (dest_i st) (dest_fps c)). x < y)
     \<and> set (create st) \<inter> set (delete st) = {}"

lemma drop_Suc_subset: "set (drop (Suc i) xs) \<subseteq> set (drop i xs)"
  by (simp add: set_drop_subset_set_drop)

lemma sorted_nth_le_drop:
  "sorted xs \<Longrightarrow> i < length xs \<Longrightarrow> y \<in> set (drop i xs) \<Longrightarrow> xs ! i \<le> y"
  by (auto simp: in_set_conv_nth sorted_iff_nth_mono)

lemma strict_nth_less_drop:
  "sorted xs \<Longrightarrow> distinct xs \<Longrightarrow> i < length xs \<Longrightarrow> y \<in> set (drop (Suc i) xs)
     \<Longrightarrow> xs ! i < y"
proof -
  assume s: "sorted xs" and d: "distinct xs" and i: "i < length xs"
    and y: "y \<in> set (drop (Suc i) xs)"
  from y obtain k where k: "k < length xs - Suc i" "y = xs ! (Suc i + k)"
    by (auto simp: in_set_conv_nth)
  then have "xs ! i \<le> xs ! (Suc i + k)"
    using s by (auto simp: sorted_iff_nth_mono)
  moreover have "xs ! i \<noteq> xs ! (Suc i + k)"
    using d i k by (auto simp: nth_eq_iff_index_eq)
  ultimately show ?thesis using k by simp
qed

lemma nth_in_drop: "i < length xs \<Longrightarrow> xs ! i \<in> set (drop i xs)"
  by (simp add: Cons_nth_drop_Suc[symmetric])

lemma loop_body_inv:
  assumes n: "dest_ext c = None" and ss: "sorted (src_fps c)"
    and sd: "sorted (dest_fps c)" and dd: "distinct (dest_fps c)"
    and i: "src_i st < length (src_fps c)" and j: "dest_i st < length (dest_fps c)"
    and inv: "merge_inv c st"
  shows "merge_inv c (loop_body c st)"
proof -
  let ?s = "src_fps c ! src_i st" and ?d = "dest_fps c ! dest_i st"
  have srt: "src_fp_srt (dest_ext c) ?s = ?s" using n by (simp add: src_fp_srt_def)
  have s_in: "?s \<in> set (drop (src_i st) (src_fps c))" using i by (rule nth_in_drop)
  have d_in: "?d \<in> set (drop (dest_i st) (dest_fps c))" using j by (rule nth_in_drop)
  from inv have i4: "\<And>x y. x \<in> set (delete st) \<Longrightarrow> y \<in> set (drop (src_i st) (src_fps c))
      \<Longrightarrow> x < y"
    and i6: "\<And>x y. x \<in> set (create st) \<Longrightarrow> y \<in> set (drop (dest_i st) (dest_fps c))
      \<Longrightarrow> x < y"
    and i5: "set (create st) \<inter> set (delete st) = {}"
    by (simp_all add: merge_inv_def)
  have s_new: "?s \<notin> set (delete st)" using i4[OF _ s_in] by auto
  have d_new: "?d \<notin> set (create st)" using i6[OF _ d_in] by auto
  have subS: "\<And>y. y \<in> set (drop (Suc (src_i st)) (src_fps c))
      \<Longrightarrow> y \<in> set (drop (src_i st) (src_fps c))"
    using drop_Suc_subset[of "src_i st" "src_fps c"] by (rule subsetD)
  have subD: "\<And>y. y \<in> set (drop (Suc (dest_i st)) (dest_fps c))
      \<Longrightarrow> y \<in> set (drop (dest_i st) (dest_fps c))"
    using drop_Suc_subset[of "dest_i st" "dest_fps c"] by (rule subsetD)
  consider (eq) "?s = ?d" | (gt) "?s > ?d" | (lt) "?s < ?d"
    by (rule linorder_cases[of ?s ?d]) auto
  then show ?thesis
  proof cases
    case eq
    define cr where "cr = create (loop_body c st)"
    have cr: "set cr \<subseteq> set (create st) \<union> {?s}"
      using eq srt by (auto simp: cr_def loop_body_def Let_def)
    have sel: "src_i (loop_body c st) = Suc (src_i st)"
      "dest_i (loop_body c st) = Suc (dest_i st)" "delete (loop_body c st) = delete st"
      using eq srt by (simp_all add: loop_body_def Let_def)
    have new: "\<And>y. y \<in> set (drop (Suc (dest_i st)) (dest_fps c)) \<Longrightarrow> ?s < y"
      using strict_nth_less_drop[OF sd dd j] eq by simp
    have a: "\<forall>x \<in> set (delete st). \<forall>y \<in> set (drop (Suc (src_i st)) (src_fps c)). x < y"
      using i4 subS by blast
    have b: "\<forall>x \<in> set cr. \<forall>y \<in> set (drop (Suc (dest_i st)) (dest_fps c)). x < y"
      using cr i6 subD new by blast
    have d: "set cr \<inter> set (delete st) = {}"
      using cr i5 s_new by blast
    show ?thesis
      unfolding merge_inv_def sel cr_def[symmetric] using a b d by blast
  next
    case gt
    from gt have ne: "?s \<noteq> ?d" by simp
    have sel: "src_i (loop_body c st) = src_i st"
      "dest_i (loop_body c st) = Suc (dest_i st)"
      "delete (loop_body c st) = delete st @ [?d]" "create (loop_body c st) = create st"
      using gt ne srt by (simp_all add: loop_body_def Let_def)
    have new: "\<And>y. y \<in> set (drop (src_i st) (src_fps c)) \<Longrightarrow> ?d < y"
      using sorted_nth_le_drop[OF ss i] gt by force
    have a: "\<forall>x \<in> set (delete st @ [?d]). \<forall>y \<in> set (drop (src_i st) (src_fps c)). x < y"
      using i4 new by auto
    have b: "\<forall>x \<in> set (create st). \<forall>y \<in> set (drop (Suc (dest_i st)) (dest_fps c)). x < y"
      using i6 subD by blast
    have d: "set (create st) \<inter> set (delete st @ [?d]) = {}"
      using i5 d_new by auto
    show ?thesis
      unfolding merge_inv_def sel using a b d by blast
  next
    case lt
    from lt have ne: "?s \<noteq> ?d" and ng: "\<not> ?s > ?d" by simp_all
    have sel: "src_i (loop_body c st) = Suc (src_i st)"
      "dest_i (loop_body c st) = dest_i st"
      "delete (loop_body c st) = delete st" "create (loop_body c st) = create st @ [?s]"
      using ne ng srt by (simp_all add: loop_body_def Let_def)
    have new: "\<And>y. y \<in> set (drop (dest_i st) (dest_fps c)) \<Longrightarrow> ?s < y"
      using sorted_nth_le_drop[OF sd j] lt by force
    have a: "\<forall>x \<in> set (delete st). \<forall>y \<in> set (drop (Suc (src_i st)) (src_fps c)). x < y"
      using i4 subS by blast
    have b: "\<forall>x \<in> set (create st @ [?s]). \<forall>y \<in> set (drop (dest_i st) (dest_fps c)). x < y"
      using i6 new by auto
    have d: "set (create st @ [?s]) \<inter> set (delete st) = {}"
      using i5 s_new by auto
    show ?thesis
      unfolding merge_inv_def sel using a b d by blast
  qed
qed

lemma merge_loop_inv:
  "dest_ext c = None \<Longrightarrow> sorted (src_fps c) \<Longrightarrow> sorted (dest_fps c)
   \<Longrightarrow> distinct (dest_fps c) \<Longrightarrow> merge_inv c st \<Longrightarrow> merge_inv c (merge_loop c st)"
proof (induction c st rule: merge_loop.induct)
  case (1 c st)
  show ?case
  proof (cases "src_i st < length (src_fps c) \<and> dest_i st < length (dest_fps c)")
    case True
    then have u: "merge_loop c st = merge_loop c (loop_body c st)"
      by (simp add: merge_loop.simps[of c st])
    from True 1 have "merge_inv c (loop_body c st)"
      by (simp add: loop_body_inv)
    with 1 True u show ?thesis by simp
  next
    case False
    then have "merge_loop c st = st" using merge_loop.simps[of c st] by auto
    with 1 show ?thesis by simp
  qed
qed

lemma copy_plan_disjoint:
  assumes "dest_ext c = None" "sorted (src_fps c)" "sorted (dest_fps c)" "distinct (dest_fps c)"
  shows "set (fst (leftovers c (merge_loop c start)))
           \<inter> set (snd (leftovers c (merge_loop c start))) = {}"
proof -
  let ?st = "merge_loop c start"
  have "merge_inv c start" by (simp add: merge_inv_def start_def)
  with assms have inv: "merge_inv c ?st" by (simp add: merge_loop_inv)
  have ex: "\<not> (src_i ?st < length (src_fps c) \<and> dest_i ?st < length (dest_fps c))"
    by (rule merge_loop_exhausted)
  then have "drop (src_i ?st) (src_fps c) = [] \<or> drop (dest_i ?st) (dest_fps c) = []"
    by auto
  with inv show ?thesis
    by (auto simp: leftovers_def merge_inv_def)
qed

text \<open>
  Claim C9 at a source with \<^verbatim>\<open>a.flac\<close> and \<^verbatim>\<open>a.g.mp3\<close>, converted to \<^verbatim>\<open>.mp3\<close>, whose
  destination holds \<^verbatim>\<open>a.g.mp3\<close>: both listings are sorted, and \<^verbatim>\<open>a.g.mp3\<close> is in the
  create list and in the delete list. And at a source with \<^verbatim>\<open>a.flac\<close> and
  \<^verbatim>\<open>a.g.flac\<close> whose destination already holds both converted files with equal
  times: \<^verbatim>\<open>a.g.mp3\<close> is deleted and \<^verbatim>\<open>a.g.flac\<close> is converted again.
\<close>

theorem plan_create_delete_overlap:
  "sorted_filtered_paths remix_fs ''src'' [''.flac'', ''.mp3''] = [''a.flac'', ''a.g.mp3'']
   \<and> sorted_filtered_paths remix_fs ''dst'' [''.mp3''] = [''a.g.mp3'']
   \<and> operations_to_sync remix_fs (\<lambda>p. 0) False ''src'' ''dst'' [''.flac'', ''.mp3'']
         (Some ''.mp3'')
       = ([''a.flac'', ''a.g.mp3''], [''a.g.mp3''])
   \<and> sorted_filtered_paths twin_fs ''src'' [''.flac''] = [''a.flac'', ''a.g.flac'']
   \<and> sorted_filtered_paths twin_fs ''dst'' [''.mp3''] = [''a.g.mp3'', ''a.mp3'']
   \<and> operations_to_sync twin_fs (\<lambda>p. 0) False ''src'' ''dst'' [''.flac''] (Some ''.mp3'')
       = ([''a.g.flac''], [''a.g.mp3''])"
  by code_simp

theorem plan_create_delete_overlap_witness:
  "''a.g.mp3'' \<in> set (fst (operations_to_sync remix_fs (\<lambda>p. 0) False ''src'' ''dst''
                              [''.flac'', ''.mp3''] (Some ''.mp3'')))
   \<and> ''a.g.mp3'' \<in> set (snd (operations_to_sync remix_fs (\<lambda>p. 0) False ''src'' ''dst''
                              [''.flac'', ''.mp3''] (Some ''.mp3'')))"
  using plan_create_delete_overlap by simp

section \<open>The differ: matched pairs\<close>

text \<open>
  A source entry is stale when the check is enabled and it is strictly newer than the
  file its remapped name stands for. As long as the remapped names of the source listing
  are themselves in strictly ascending order, every source entry whose remapped name is a
  destination entry meets that entry under the two indices, and the create list holds
  exactly the source entries that have no counterpart or are stale. The copy plan
  compares the names as listed and is always in this case.
\<close>

definition stale :: "sync_ctx \<Rightarrow> string \<Rightarrow> bool" where
  "stale c x \<longleftrightarrow>
     \<not> args_ignore_mtime c
     \<and> getmtime c (join (src c) x) > getmtime c (join (dest c) (src_fp_srt (dest_ext c) x))"

definition match_inv :: "sync_ctx \<Rightarrow> merge_state \<Rightarrow> bool" where
  "match_inv c st \<longleftrightarrow>
     set (create st) \<subseteq> set (take (src_i st) (src_fps c))
     \<and> (\<forall>x \<in> set (take (src_i st) (src_fps c)).
           x \<in> set (create st)
             \<longleftrightarrow> src_fp_srt (dest_ext c) x \<notin> set (dest_fps c) \<or> stale c x)
     \<and> (\<forall>y \<in> set (take (dest_i st) (dest_fps c)).
           \<forall>x \<in> set (drop (src_i st) (src_fps c)). y < src_fp_srt (dest_ext c) x)"

lemma nth_notin_take: "distinct xs \<Longrightarrow> i < length xs \<Longrightarrow> xs ! i \<notin> set (take i xs)"
proof
  assume d: "distinct xs" and i: "i < length xs" and m: "xs ! i \<in> set (take i xs)"
  from m obtain k where k: "k < length (take i xs)" "take i xs ! k = xs ! i"
    by (auto simp: in_set_conv_nth)
  then have "k < i" "xs ! k = xs ! i" by simp_all
  with d i show False by (simp add: nth_eq_iff_index_eq)
qed

lemma take_Suc_set: "i < length xs \<Longrightarrow> set (take (Suc i) xs) = insert (xs ! i) (set (take i xs))"
  by (simp add: take_Suc_conv_app_nth)

lemma set_take_drop: "set xs = set (take j xs) \<union> set (drop j xs)"
  by (metis append_take_drop_id set_append)


lemma loop_body_match_inv:
  assumes ss: "sorted (map (src_fp_srt (dest_ext c)) (src_fps c))"
    and ds: "distinct (map (src_fp_srt (dest_ext c)) (src_fps c))"
    and sd: "sorted (dest_fps c)"
    and i: "src_i st < length (src_fps c)" and j: "dest_i st < length (dest_fps c)"
    and inv: "match_inv c st"
  shows "match_inv c (loop_body c st)"
proof -
  let ?r = "src_fp_srt (dest_ext c)"
  let ?S = "src_fps c" and ?D = "dest_fps c"
  let ?s = "?S ! src_i st" and ?d = "?D ! dest_i st"
  from ds have dS: "distinct ?S" by (rule distinct_map[THEN iffD1, THEN conjunct1])
  from inv have c1: "set (create st) \<subseteq> set (take (src_i st) ?S)"
    and c2: "\<And>x. x \<in> set (take (src_i st) ?S) \<Longrightarrow>
          (x \<in> set (create st)) = (?r x \<notin> set ?D \<or> stale c x)"
    and c3: "\<And>y x. y \<in> set (take (dest_i st) ?D) \<Longrightarrow> x \<in> set (drop (src_i st) ?S)
          \<Longrightarrow> y < ?r x"
    by (simp_all add: match_inv_def)
  have s_in: "?s \<in> set (drop (src_i st) ?S)" using i by (rule nth_in_drop)
  have d_in: "?d \<in> set (drop (dest_i st) ?D)" using j by (rule nth_in_drop)
  have d_mem: "?d \<in> set ?D" using j by simp
  have s_old: "?s \<notin> set (take (src_i st) ?S)" using dS i by (rule nth_notin_take)
  have s_cr: "?s \<notin> set (create st)" using c1 s_old by blast
  have tkS: "set (take (Suc (src_i st)) ?S) = insert ?s (set (take (src_i st) ?S))"
    using i by (rule take_Suc_set)
  have tkD: "set (take (Suc (dest_i st)) ?D) = insert ?d (set (take (dest_i st) ?D))"
    using j by (rule take_Suc_set)
  have subS: "\<And>x. x \<in> set (drop (Suc (src_i st)) ?S) \<Longrightarrow> x \<in> set (drop (src_i st) ?S)"
    using drop_Suc_subset[of "src_i st" ?S] by (rule subsetD)
  have r_le: "\<And>x. x \<in> set (drop (src_i st) ?S) \<Longrightarrow> ?r ?s \<le> ?r x"
  proof -
    fix x assume "x \<in> set (drop (src_i st) ?S)"
    then have "?r x \<in> set (drop (src_i st) (map ?r ?S))" by (simp add: drop_map)
    with sorted_nth_le_drop[OF ss, of "src_i st" "?r x"] i show "?r ?s \<le> ?r x" by simp
  qed
  have r_lt: "\<And>x. x \<in> set (drop (Suc (src_i st)) ?S) \<Longrightarrow> ?r ?s < ?r x"
  proof -
    fix x assume "x \<in> set (drop (Suc (src_i st)) ?S)"
    then have "?r x \<in> set (drop (Suc (src_i st)) (map ?r ?S))" by (simp add: drop_map)
    with strict_nth_less_drop[OF ss ds, of "src_i st" "?r x"] i show "?r ?s < ?r x" by simp
  qed
  have d_le: "\<And>y. y \<in> set (drop (dest_i st) ?D) \<Longrightarrow> ?d \<le> y"
    using sorted_nth_le_drop[OF sd j] by blast
  consider (eq) "?r ?s = ?d" | (gt) "?r ?s > ?d" | (lt) "?r ?s < ?d"
    by (rule linorder_cases[of "?r ?s" ?d]) auto
  then show ?thesis
  proof cases
    case eq
    have st_eq: "stale c ?s \<longleftrightarrow> \<not> args_ignore_mtime c
        \<and> getmtime c (join (src c) ?s) > getmtime c (join (dest c) ?d)"
      using eq by (simp add: stale_def)
    have sel: "src_i (loop_body c st) = Suc (src_i st)"
      "dest_i (loop_body c st) = Suc (dest_i st)"
      using eq by (simp_all add: loop_body_def Let_def)
    have cr: "set (create (loop_body c st))
        = (if stale c ?s then insert ?s (set (create st)) else set (create st))"
      using eq st_eq by (auto simp: loop_body_def Let_def)
    have a: "set (create (loop_body c st)) \<subseteq> set (take (Suc (src_i st)) ?S)"
      unfolding cr tkS using c1 by auto
    have b: "\<forall>x \<in> set (take (Suc (src_i st)) ?S).
        (x \<in> set (create (loop_body c st))) = (?r x \<notin> set ?D \<or> stale c x)"
    proof
      fix x assume x: "x \<in> set (take (Suc (src_i st)) ?S)"
      show "(x \<in> set (create (loop_body c st))) = (?r x \<notin> set ?D \<or> stale c x)"
      proof (cases "x = ?s")
        case True
        have "?r ?s \<in> set ?D" using eq d_mem by simp
        with True s_cr show ?thesis unfolding cr by auto
      next
        case False
        with x tkS have "x \<in> set (take (src_i st) ?S)" by simp
        from c2[OF this] False show ?thesis unfolding cr by auto
      qed
    qed
    have d: "\<forall>y \<in> set (take (Suc (dest_i st)) ?D).
        \<forall>x \<in> set (drop (Suc (src_i st)) ?S). y < ?r x"
    proof (intro ballI)
      fix y x assume y: "y \<in> set (take (Suc (dest_i st)) ?D)"
        and x: "x \<in> set (drop (Suc (src_i st)) ?S)"
      show "y < ?r x"
      proof (cases "y = ?d")
        case True
        with r_lt[OF x] eq show ?thesis by simp
      next
        case False
        with y tkD have "y \<in> set (take (dest_i st) ?D)" by simp
        from c3[OF this subS[OF x]] show ?thesis .
      qed
    qed
    show ?thesis unfolding match_inv_def sel using a b d by blast
  next
    case gt
    from gt have ne: "?r ?s \<noteq> ?d" by simp
    have sel: "src_i (loop_body c st) = src_i st"
      "dest_i (loop_body c st) = Suc (dest_i st)" "create (loop_body c st) = create st"
      using gt ne by (simp_all add: loop_body_def Let_def)
    have d: "\<forall>y \<in> set (take (Suc (dest_i st)) ?D).
        \<forall>x \<in> set (drop (src_i st) ?S). y < ?r x"
    proof (intro ballI)
      fix y x assume y: "y \<in> set (take (Suc (dest_i st)) ?D)"
        and x: "x \<in> set (drop (src_i st) ?S)"
      show "y < ?r x"
      proof (cases "y = ?d")
        case True
        with r_le[OF x] gt show ?thesis by simp
      next
        case False
        with y tkD have "y \<in> set (take (dest_i st) ?D)" by simp
        from c3[OF this x] show ?thesis .
      qed
    qed
    show ?thesis unfolding match_inv_def sel using c1 c2 d by blast
  next
    case lt
    from lt have ne: "?r ?s \<noteq> ?d" and ng: "\<not> ?r ?s > ?d" by simp_all
    have sel: "src_i (loop_body c st) = Suc (src_i st)"
      "dest_i (loop_body c st) = dest_i st"
      using ne ng by (simp_all add: loop_body_def Let_def)
    have cr: "set (create (loop_body c st)) = insert ?s (set (create st))"
      using ne ng by (simp add: loop_body_def Let_def)
    have notD: "?r ?s \<notin> set ?D"
    proof
      assume m: "?r ?s \<in> set ?D"
      then have "?r ?s \<in> set (take (dest_i st) ?D) \<or> ?r ?s \<in> set (drop (dest_i st) ?D)"
        using set_take_drop[of ?D "dest_i st"] by blast
      then show False
      proof
        assume "?r ?s \<in> set (take (dest_i st) ?D)"
        from c3[OF this s_in] show False by simp
      next
        assume "?r ?s \<in> set (drop (dest_i st) ?D)"
        from d_le[OF this] lt show False by simp
      qed
    qed
    have a: "set (create (loop_body c st)) \<subseteq> set (take (Suc (src_i st)) ?S)"
      unfolding cr tkS using c1 by auto
    have b: "\<forall>x \<in> set (take (Suc (src_i st)) ?S).
        (x \<in> set (create (loop_body c st))) = (?r x \<notin> set ?D \<or> stale c x)"
    proof
      fix x assume x: "x \<in> set (take (Suc (src_i st)) ?S)"
      show "(x \<in> set (create (loop_body c st))) = (?r x \<notin> set ?D \<or> stale c x)"
      proof (cases "x = ?s")
        case True
        with notD show ?thesis unfolding cr by simp
      next
        case False
        with x tkS have "x \<in> set (take (src_i st) ?S)" by simp
        from c2[OF this] False show ?thesis unfolding cr by simp
      qed
    qed
    have d: "\<forall>y \<in> set (take (dest_i st) ?D).
        \<forall>x \<in> set (drop (Suc (src_i st)) ?S). y < ?r x"
      using c3 subS by blast
    show ?thesis unfolding match_inv_def sel using a b d by blast
  qed
qed

lemma merge_loop_match_inv:
  "sorted (map (src_fp_srt (dest_ext c)) (src_fps c))
   \<Longrightarrow> distinct (map (src_fp_srt (dest_ext c)) (src_fps c))
   \<Longrightarrow> sorted (dest_fps c) \<Longrightarrow> match_inv c st \<Longrightarrow> match_inv c (merge_loop c st)"
proof (induction c st rule: merge_loop.induct)
  case (1 c st)
  show ?case
  proof (cases "src_i st < length (src_fps c) \<and> dest_i st < length (dest_fps c)")
    case True
    then have u: "merge_loop c st = merge_loop c (loop_body c st)"
      by (simp add: merge_loop.simps[of c st])
    from True 1 have "match_inv c (loop_body c st)"
      by (simp add: loop_body_match_inv)
    with 1 True u show ?thesis by simp
  next
    case False
    then have "merge_loop c st = st" using merge_loop.simps[of c st] by auto
    with 1 show ?thesis by simp
  qed
qed

lemma merge_loop_bounds:
  "src_i st \<le> length (src_fps c) \<Longrightarrow> dest_i st \<le> length (dest_fps c)
   \<Longrightarrow> src_i (merge_loop c st) \<le> length (src_fps c)
       \<and> dest_i (merge_loop c st) \<le> length (dest_fps c)"
proof (induction c st rule: merge_loop.induct)
  case (1 c st)
  show ?case
  proof (cases "src_i st < length (src_fps c) \<and> dest_i st < length (dest_fps c)")
    case True
    then have u: "merge_loop c st = merge_loop c (loop_body c st)"
      by (simp add: merge_loop.simps[of c st])
    from True have "src_i (loop_body c st) \<le> length (src_fps c)"
      "dest_i (loop_body c st) \<le> length (dest_fps c)"
      by (auto simp: loop_body_def Let_def)
    with 1 True u show ?thesis by simp
  next
    case False
    then have "merge_loop c st = st" using merge_loop.simps[of c st] by auto
    with 1 show ?thesis by simp
  qed
qed

lemma merge_create_ordered:
  assumes ss: "sorted (map (src_fp_srt (dest_ext c)) (src_fps c))"
    and ds: "distinct (map (src_fp_srt (dest_ext c)) (src_fps c))"
    and sd: "sorted (dest_fps c)"
  shows "set (fst (leftovers c (merge_loop c start)))
     = {x \<in> set (src_fps c). src_fp_srt (dest_ext c) x \<notin> set (dest_fps c) \<or> stale c x}"
proof -
  let ?r = "src_fp_srt (dest_ext c)"
  let ?S = "src_fps c" and ?D = "dest_fps c"
  let ?st = "merge_loop c start"
  have "match_inv c start" by (simp add: match_inv_def start_def)
  with ss ds sd have inv: "match_inv c ?st" by (rule merge_loop_match_inv)
  then have c1: "set (create ?st) \<subseteq> set (take (src_i ?st) ?S)"
    and c2: "\<And>x. x \<in> set (take (src_i ?st) ?S) \<Longrightarrow>
          (x \<in> set (create ?st)) = (?r x \<notin> set ?D \<or> stale c x)"
    and c3: "\<And>y x. y \<in> set (take (dest_i ?st) ?D) \<Longrightarrow> x \<in> set (drop (src_i ?st) ?S)
          \<Longrightarrow> y < ?r x"
    by (simp_all add: match_inv_def)
  have bd: "src_i ?st \<le> length ?S \<and> dest_i ?st \<le> length ?D"
    by (rule merge_loop_bounds) (simp_all add: start_def)
  have ex: "\<not> (src_i ?st < length ?S \<and> dest_i ?st < length ?D)"
    by (rule merge_loop_exhausted)
  have rest: "\<And>x. x \<in> set (drop (src_i ?st) ?S) \<Longrightarrow> ?r x \<notin> set ?D"
  proof
    fix x assume x: "x \<in> set (drop (src_i ?st) ?S)" and m: "?r x \<in> set ?D"
    from x have "src_i ?st < length ?S" by (cases "src_i ?st < length ?S") auto
    with ex bd have "dest_i ?st = length ?D" by simp
    with m have "?r x \<in> set (take (dest_i ?st) ?D)" by simp
    from c3[OF this x] show False by simp
  qed
  have split: "set ?S = set (take (src_i ?st) ?S) \<union> set (drop (src_i ?st) ?S)"
    by (rule set_take_drop)
  have "set (fst (leftovers c ?st)) = set (create ?st) \<union> set (drop (src_i ?st) ?S)"
    by (simp add: leftovers_def)
  also have "\<dots> = {x \<in> set ?S. ?r x \<notin> set ?D \<or> stale c x}"
  proof (intro equalityI subsetI)
    fix x assume "x \<in> set (create ?st) \<union> set (drop (src_i ?st) ?S)"
    then show "x \<in> {x \<in> set ?S. ?r x \<notin> set ?D \<or> stale c x}"
    proof
      assume xc: "x \<in> set (create ?st)"
      with c1 have xt: "x \<in> set (take (src_i ?st) ?S)" by blast
      from c2[OF xt] xc xt split show ?thesis by blast
    next
      assume xd: "x \<in> set (drop (src_i ?st) ?S)"
      from rest[OF xd] xd split show ?thesis by blast
    qed
  next
    fix x assume "x \<in> {x \<in> set ?S. ?r x \<notin> set ?D \<or> stale c x}"
    then have xs: "x \<in> set ?S" and p: "?r x \<notin> set ?D \<or> stale c x" by simp_all
    from xs split have "x \<in> set (take (src_i ?st) ?S) \<or> x \<in> set (drop (src_i ?st) ?S)"
      by blast
    then show "x \<in> set (create ?st) \<union> set (drop (src_i ?st) ?S)"
    proof
      assume xt: "x \<in> set (take (src_i ?st) ?S)"
      from c2[OF xt] p show ?thesis by blast
    next
      assume "x \<in> set (drop (src_i ?st) ?S)"
      then show ?thesis by blast
    qed
  qed
  finally show ?thesis .
qed

lemma operations_to_sync_create_ordered:
  assumes ne: "exts \<noteq> []"
    and ss: "sorted (map (src_fp_srt de) (sorted_filtered_paths fs s exts))"
    and ds: "distinct (map (src_fp_srt de) (sorted_filtered_paths fs s exts))"
  shows "set (fst (operations_to_sync fs mtime ignore s d exts de))
     = {x \<in> set (sorted_filtered_paths fs s exts).
          src_fp_srt de x
            \<notin> set (sorted_filtered_paths fs d
                     (case de of None \<Rightarrow> exts | Some e \<Rightarrow> if e \<noteq> [] then [e] else exts))
          \<or> (\<not> ignore \<and> mtime (join s x) > mtime (join d (src_fp_srt de x)))}"
proof -
  define c where "c = \<lparr>getmtime = mtime, args_ignore_mtime = ignore, src = s, dest = d,
      dest_ext = de, src_fps = sorted_filtered_paths fs s exts,
      dest_fps = sorted_filtered_paths fs d
        (case de of None \<Rightarrow> exts | Some e \<Rightarrow> if e \<noteq> [] then [e] else exts)\<rparr>"
  have o: "operations_to_sync fs mtime ignore s d exts de = leftovers c (merge_loop c start)"
    using ne by (simp add: operations_to_sync_def c_def start_def Let_def)
  have a: "sorted (map (src_fp_srt (dest_ext c)) (src_fps c))"
    and b: "distinct (map (src_fp_srt (dest_ext c)) (src_fps c))"
    using ss ds by (simp_all add: c_def)
  have sd: "sorted (dest_fps c)"
    by (simp add: c_def sorted_filtered_paths_def)
  have st: "\<And>x. stale c x
      = (\<not> ignore \<and> mtime (join s x) > mtime (join d (src_fp_srt de x)))"
    by (simp add: stale_def c_def)
  show ?thesis
    unfolding o merge_create_ordered[OF a b sd] st
    by (simp add: c_def)
qed

lemma copy_plan_ignore_mtime:
  assumes "exts \<noteq> []" "distinct (sorted_filtered_paths fs s exts)"
  shows "set (fst (operations_to_sync fs mtime True s d exts None))
     = set (sorted_filtered_paths fs s exts) - set (sorted_filtered_paths fs d exts)"
proof -
  have id: "src_fp_srt None = (\<lambda>x. x)" by (rule ext) (simp add: src_fp_srt_def)
  have "sorted (sorted_filtered_paths fs s exts)" by (simp add: sorted_filtered_paths_def)
  with assms show ?thesis
    using operations_to_sync_create_ordered[of exts None fs s mtime True d]
    by (auto simp: id)
qed

text \<open>
  Claim C8 at a source with \<^verbatim>\<open>a.flac\<close> and \<^verbatim>\<open>a.g.flac\<close> whose destination holds both
  converted files, with the check disabled: the remapped name of \<^verbatim>\<open>a.g.flac\<close> is the
  destination entry \<^verbatim>\<open>a.g.mp3\<close>, and whatever the times are \<^verbatim>\<open>a.g.flac\<close> is in the
  create list. The remapped source listing \<^verbatim>\<open>a.mp3\<close>, \<^verbatim>\<open>a.g.mp3\<close> is not ascending, so
  the pair never stands under both indices.
\<close>

theorem ignore_mtime_pair_emitted:
  "src_fp_srt (Some ''.mp3'') ''a.g.flac'' = ''a.g.mp3''
   \<and> sorted_filtered_paths twin_fs ''src'' [''.flac''] = [''a.flac'', ''a.g.flac'']
   \<and> sorted_filtered_paths twin_fs ''dst'' [''.mp3''] = [''a.g.mp3'', ''a.mp3'']
   \<and> operations_to_sync twin_fs mtime True ''src'' ''dst'' [''.flac''] (Some ''.mp3'')
       = ([''a.g.flac''], [''a.g.mp3''])"
  by code_simp

theorem ignore_mtime_pair_emitted_witness:
  "''a.g.flac'' \<in> set (fst (operations_to_sync twin_fs (\<lambda>p. 0) True ''src'' ''dst''
                               [''.flac''] (Some ''.mp3'')))
   \<and> src_fp_srt (Some ''.mp3'') ''a.g.flac''
       \<in> set (sorted_filtered_paths twin_fs ''dst'' [''.mp3''])"
  using ignore_mtime_pair_emitted[of "\<lambda>p. 0"] by simp

end
